theory Spec2Isabelle
  imports Main "HOL-Library.Sublist"
begin

section \<open>Overview\<close>

text \<open>
  The store of \<^verbatim>\<open>internal/config/ssh.go\<close>: the parser of the SSH client configuration
  file and the three operations that rewrite it. Strings are sequences of bytes, the file
  system is the content of the two files the store touches, and every operation takes the
  files and returns its error, if any, with the files afterwards. The lock that the
  operations hold around their work has no part in what one operation computes and is not
  modelled.
\<close>

section \<open>Go's \<^verbatim>\<open>strings\<close> functions used by the store\<close>

text \<open>
  A Go string is a sequence of bytes, here a \<^typ>\<open>string\<close>. \<^verbatim>\<open>strings.TrimSpace\<close> and
  \<^verbatim>\<open>strings.Fields\<close> read the bytes as UTF-8 and treat as white space the runes of
  \<^verbatim>\<open>unicode.IsSpace\<close>: the six ASCII ones (tab, line feed, vertical tab, form feed,
  carriage return, space), U+0085, U+00A0, U+1680, U+2000 to U+200A, U+2028, U+2029,
  U+202F, U+205F and U+3000. \<open>spaceEncodings\<close> lists their UTF-8 encodings. Every other
  byte sequence, ill-formed ones included, decodes to runes that are not white space.
\<close>

definition spaceEncodings :: "string list" where
  "spaceEncodings =
    [[CHR 0x09], [CHR 0x0A], [CHR 0x0B], [CHR 0x0C], [CHR 0x0D], [CHR 0x20],
     [CHR 0xC2, CHR 0x85], [CHR 0xC2, CHR 0xA0],
     [CHR 0xE1, CHR 0x9A, CHR 0x80],
     [CHR 0xE2, CHR 0x80, CHR 0x80], [CHR 0xE2, CHR 0x80, CHR 0x81],
     [CHR 0xE2, CHR 0x80, CHR 0x82], [CHR 0xE2, CHR 0x80, CHR 0x83],
     [CHR 0xE2, CHR 0x80, CHR 0x84], [CHR 0xE2, CHR 0x80, CHR 0x85],
     [CHR 0xE2, CHR 0x80, CHR 0x86], [CHR 0xE2, CHR 0x80, CHR 0x87],
     [CHR 0xE2, CHR 0x80, CHR 0x88], [CHR 0xE2, CHR 0x80, CHR 0x89],
     [CHR 0xE2, CHR 0x80, CHR 0x8A],
     [CHR 0xE2, CHR 0x80, CHR 0xA8], [CHR 0xE2, CHR 0x80, CHR 0xA9],
     [CHR 0xE2, CHR 0x80, CHR 0xAF],
     [CHR 0xE2, CHR 0x81, CHR 0x9F],
     [CHR 0xE3, CHR 0x80, CHR 0x80]]"

text \<open>The number of bytes of the white-space rune that starts \<open>s\<close>, 0 when none does.\<close>

definition spaceLen :: "string \<Rightarrow> nat" where
  "spaceLen s = (case find (\<lambda>e. prefix e s) spaceEncodings of None \<Rightarrow> 0 | Some e \<Rightarrow> length e)"

text \<open>The number of bytes of the white-space rune that ends \<open>s\<close>, given \<open>s\<close> reversed.\<close>

definition spaceLenRev :: "string \<Rightarrow> nat" where
  "spaceLenRev r =
     (case find (\<lambda>e. prefix (rev e) r) spaceEncodings of None \<Rightarrow> 0 | Some e \<Rightarrow> length e)"

text \<open>
  Cutting the white-space runes at the start of a string, and at its end: \<open>trimLeftRev\<close>
  works on the reversed string, as Go decodes the last rune of what is left.
\<close>

fun trimLeft :: "string \<Rightarrow> string" where
  "trimLeft [] = []"
| "trimLeft (c # s) =
     (if spaceLen (c # s) = 0 then c # s else trimLeft (drop (spaceLen (c # s) - 1) s))"

fun trimLeftRev :: "string \<Rightarrow> string" where
  "trimLeftRev [] = []"
| "trimLeftRev (c # r) =
     (if spaceLenRev (c # r) = 0 then c # r else trimLeftRev (drop (spaceLenRev (c # r) - 1) r))"

definition trimRight :: "string \<Rightarrow> string" where
  "trimRight s = rev (trimLeftRev (rev s))"

text \<open>\<^verbatim>\<open>strings.TrimSpace\<close>: leading white-space runes are cut first, then trailing ones.\<close>

definition TrimSpace :: "string \<Rightarrow> string" where
  "TrimSpace s = trimRight (trimLeft s)"

text \<open>
  \<^verbatim>\<open>strings.Fields\<close>: the maximal runs of runes that are not white space, in order.
  \<open>fieldsFrom tok s\<close> scans \<open>s\<close> with the bytes of the field under way in \<open>tok\<close>.
\<close>

fun fieldsFrom :: "string \<Rightarrow> string \<Rightarrow> string list" where
  "fieldsFrom tok [] = (if tok = [] then [] else [tok])"
| "fieldsFrom tok (c # s) =
     (if spaceLen (c # s) = 0 then fieldsFrom (tok @ [c]) s
      else (if tok = [] then [] else [tok]) @ fieldsFrom [] (drop (spaceLen (c # s) - 1) s))"

definition Fields :: "string \<Rightarrow> string list" where
  "Fields s = fieldsFrom [] s"

definition HasPrefix :: "string \<Rightarrow> string \<Rightarrow> bool" where
  "HasPrefix s p = prefix p s"

definition TrimPrefix :: "string \<Rightarrow> string \<Rightarrow> string" where
  "TrimPrefix s p = (if HasPrefix s p then drop (length p) s else s)"

text \<open>
  \<^verbatim>\<open>strings.Split\<close> with a separator of one byte (the store splits at line feeds and at
  commas): the pieces between the separators, so one piece more than there are separators.
\<close>

fun Split :: "string \<Rightarrow> char \<Rightarrow> string list" where
  "Split [] sep = [[]]"
| "Split (c # s) sep =
     (if c = sep then [] # Split s sep
      else (case Split s sep of [] \<Rightarrow> [[c]] | x # xs \<Rightarrow> (c # x) # xs))"

fun Join :: "string list \<Rightarrow> string \<Rightarrow> string" where
  "Join [] sep = []"
| "Join [x] sep = x"
| "Join (x # y # ys) sep = x @ sep @ Join (y # ys) sep"

text \<open>
  \<^verbatim>\<open>strings.ToLower\<close> maps every rune to its lower case. The parser compares the result
  with ASCII words only, and the runes with an ASCII lower case are the letters A to Z,
  U+0130 (lower case \<open>i\<close>) and U+212A (lower case \<open>k\<close>). These are mapped as Go maps them;
  every other byte is kept as it is, where Go yields some rune that is not ASCII either.
\<close>

definition lowerByte :: "char \<Rightarrow> char" where
  "lowerByte c =
     (case map_of (zip ''ABCDEFGHIJKLMNOPQRSTUVWXYZ'' ''abcdefghijklmnopqrstuvwxyz'') c of
        None \<Rightarrow> c
      | Some d \<Rightarrow> d)"

fun ToLower :: "string \<Rightarrow> string" where
  "ToLower [] = []"
| "ToLower (c # s) =
     (if prefix [CHR 0xC4, CHR 0xB0] (c # s) then CHR ''i'' # ToLower (drop 1 s)
      else if prefix [CHR 0xE2, CHR 0x84, CHR 0xAA] (c # s) then CHR ''k'' # ToLower (drop 2 s)
      else lowerByte c # ToLower s)"

section \<open>The data model\<close>

text \<open>\<^verbatim>\<open>type SSHHost struct\<close>: one host entry. An absent field is the empty string.\<close>

record SSHHost =
  Name :: string
  Hostname :: string
  User :: string
  Port :: string
  Identity :: string
  ProxyJump :: string
  Tags :: "string list"

text \<open>
  The errors the store returns. \<open>ErrNoHome\<close>: \<^verbatim>\<open>os.UserHomeDir\<close> failed. \<open>ErrNotExist\<close>:
  a file to open or read does not exist. \<open>ErrTooLong\<close>: the scanner met a line that does
  not fit its buffer (\<^verbatim>\<open>bufio.ErrTooLong\<close>). \<open>BackupFailed\<close> wraps the error of the backup
  step. \<open>AlreadyExists\<close> and \<open>NotFound\<close> carry the host name of the message.
  \<open>IndexOutOfRange\<close> is the run-time panic of an index beyond a slice.
\<close>

datatype error =
  ErrNoHome
| ErrNotExist
| ErrTooLong
| BackupFailed error
| AlreadyExists string
| NotFound string
| IndexOutOfRange

text \<open>
  The part of the machine the store touches: whether the home directory is known, the
  content of \<^verbatim>\<open>~/.ssh/config\<close> and of \<^verbatim>\<open>~/.ssh/config.backup\<close> (\<open>None\<close>: no such file).
  A file that exists can be read and written: permissions and a full disk are not
  modelled, and nothing else runs between two steps of an operation.
\<close>

record files =
  home :: bool
  config :: "string option"
  backup :: "string option"

section \<open>The parser\<close>

text \<open>
  \<^verbatim>\<open>bufio.Scanner\<close> with its default split function and buffer: the lines of the input
  without their line feed and without one carriage return before it; an empty last line
  is no line. A line of \<open>MaxScanTokenSize\<close> bytes or more stops the scan with
  \<open>ErrTooLong\<close>; the lines before it have been delivered.
\<close>

definition MaxScanTokenSize :: nat where
  "MaxScanTokenSize = 64 * 1024"

definition dropCR :: "string \<Rightarrow> string" where
  "dropCR l = (if l \<noteq> [] \<and> last l = CHR 0x0D then butlast l else l)"

definition scanLines :: "string \<Rightarrow> string list \<times> error option" where
  "scanLines content =
     (let pieces = Split content CHR 0x0A;
          ls = (if last pieces = [] then butlast pieces else pieces);
          ok = takeWhile (\<lambda>l. length l < MaxScanTokenSize) ls
      in (map dropCR ok, if length ok < length ls then Some ErrTooLong else None))"

text \<open>The variables of the parsing loop.\<close>

record pstate =
  hosts :: "SSHHost list"
  currentHost :: "SSHHost option"
  pendingTags :: "string list"

definition initState :: pstate where
  "initState = \<lparr>hosts = [], currentHost = None, pendingTags = []\<rparr>"

text \<open>The tags of a trimmed \<^verbatim>\<open># Tags:\<close> line, appended to the pending ones.\<close>

definition addTags :: "string list \<Rightarrow> string \<Rightarrow> string list" where
  "addTags pending line =
     (let tagsStr = TrimSpace (TrimPrefix line ''# Tags:'')
      in if tagsStr \<noteq> [] then
           pending @ filter (\<lambda>tag. tag \<noteq> []) (map TrimSpace (Split tagsStr CHR '',''))
         else pending)"

definition initHost :: "string \<Rightarrow> string list \<Rightarrow> SSHHost" where
  "initHost v tgs =
     \<lparr>Name = v, Hostname = [], User = [], Port = ''22'', Identity = [], ProxyJump = [],
      Tags = tgs\<rparr>"

text \<open>
  The \<^verbatim>\<open>switch key\<close> of the loop. A \<^verbatim>\<open>host\<close> line closes the host under construction
  and opens a new one with the pending tags; the other keys set a field of the host
  under construction, if there is one.
\<close>

definition directive :: "string \<Rightarrow> string \<Rightarrow> pstate \<Rightarrow> pstate" where
  "directive key v st =
     (if key = ''host'' then
        st\<lparr>hosts := (case currentHost st of None \<Rightarrow> hosts st | Some h \<Rightarrow> hosts st @ [h]),
           currentHost := Some (initHost v (pendingTags st)),
           pendingTags := []\<rparr>
      else if key = ''hostname'' then
        st\<lparr>currentHost := map_option (\<lambda>h. h\<lparr>Hostname := v\<rparr>) (currentHost st)\<rparr>
      else if key = ''user'' then
        st\<lparr>currentHost := map_option (\<lambda>h. h\<lparr>User := v\<rparr>) (currentHost st)\<rparr>
      else if key = ''port'' then
        st\<lparr>currentHost := map_option (\<lambda>h. h\<lparr>Port := v\<rparr>) (currentHost st)\<rparr>
      else if key = ''identityfile'' then
        st\<lparr>currentHost := map_option (\<lambda>h. h\<lparr>Identity := v\<rparr>) (currentHost st)\<rparr>
      else if key = ''proxyjump'' then
        st\<lparr>currentHost := map_option (\<lambda>h. h\<lparr>ProxyJump := v\<rparr>) (currentHost st)\<rparr>
      else st)"

text \<open>The body of the scanning loop of \<^verbatim>\<open>ParseSSHConfigFile\<close>, for one scanned line.\<close>

definition parseLine :: "pstate \<Rightarrow> string \<Rightarrow> pstate" where
  "parseLine st text =
     (let line = TrimSpace text in
      if line = [] then st
      else if HasPrefix line ''# Tags:'' then st\<lparr>pendingTags := addTags (pendingTags st) line\<rparr>
      else if HasPrefix line ''#'' then st
      else
        let parts = Fields line in
        if length parts < 2 then st
        else directive (ToLower (hd parts)) (Join (tl parts) '' '') st)"

definition parseLines :: "pstate \<Rightarrow> string list \<Rightarrow> pstate" where
  "parseLines st ls = foldl parseLine st ls"

text \<open>After the loop: the host under construction, if any, is the last one.\<close>

definition finish :: "pstate \<Rightarrow> SSHHost list" where
  "finish st = (case currentHost st of None \<Rightarrow> hosts st | Some h \<Rightarrow> hosts st @ [h])"

text \<open>
  \<^verbatim>\<open>ParseSSHConfigFile\<close>, given the content of the file at the path (\<open>None\<close>: it cannot be
  opened). It returns the hosts read so far together with the scanner's error.
\<close>

definition ParseSSHConfigFile :: "string option \<Rightarrow> SSHHost list \<times> error option" where
  "ParseSSHConfigFile file =
     (case file of
        None \<Rightarrow> ([], Some ErrNotExist)
      | Some content \<Rightarrow>
          (let (ls, err) = scanLines content in (finish (parseLines initState ls), err)))"

definition ParseSSHConfig :: "files \<Rightarrow> SSHHost list \<times> error option" where
  "ParseSSHConfig fs = (if \<not> home fs then ([], Some ErrNoHome) else ParseSSHConfigFile (config fs))"

definition HostExists :: "string \<Rightarrow> files \<Rightarrow> bool \<times> error option" where
  "HostExists hostName fs =
     (case ParseSSHConfig fs of
        (hs, Some e) \<Rightarrow> (False, Some e)
      | (hs, None) \<Rightarrow> (hostName \<in> set (map Name hs), None))"

definition GetSSHHost :: "string \<Rightarrow> files \<Rightarrow> error + SSHHost" where
  "GetSSHHost hostName fs =
     (case ParseSSHConfig fs of
        (hs, Some e) \<Rightarrow> Inl e
      | (hs, None) \<Rightarrow>
          (case find (\<lambda>h. Name h = hostName) hs of
             Some h \<Rightarrow> Inr h
           | None \<Rightarrow> Inl (NotFound hostName)))"

section \<open>The mutator\<close>

text \<open>
  \<^verbatim>\<open>backupConfig\<close>: the content of the config file becomes the content of the backup
  file, replacing an earlier backup.
\<close>

definition backupConfig :: "files \<Rightarrow> error option \<times> files" where
  "backupConfig fs =
     (case config fs of
        None \<Rightarrow> (Some ErrNotExist, fs)
      | Some content \<Rightarrow> (None, fs\<lparr>backup := Some content\<rparr>))"

text \<open>The text that \<^verbatim>\<open>AddSSHHost\<close> writes, one \<^verbatim>\<open>WriteString\<close> after the other.\<close>

definition addText :: "SSHHost \<Rightarrow> string" where
  "addText host =
     [CHR 0x0A]
     @ (if length (Tags host) > 0 then ''# Tags: '' @ Join (Tags host) '', '' @ [CHR 0x0A] else [])
     @ ''Host '' @ Name host @ [CHR 0x0A]
     @ ''    HostName '' @ Hostname host @ [CHR 0x0A]
     @ (if User host \<noteq> [] then ''    User '' @ User host @ [CHR 0x0A] else [])
     @ (if Port host \<noteq> [] \<and> Port host \<noteq> ''22'' then ''    Port '' @ Port host @ [CHR 0x0A] else [])
     @ (if Identity host \<noteq> [] then ''    IdentityFile '' @ Identity host @ [CHR 0x0A] else [])
     @ (if ProxyJump host \<noteq> [] then ''    ProxyJump '' @ ProxyJump host @ [CHR 0x0A] else [])"

text \<open>
  \<^verbatim>\<open>AddSSHHost\<close>. The backup is taken when the config file exists; the uniqueness check
  parses the file; only then is the file opened for appending (and created when absent).
\<close>

definition AddSSHHost :: "SSHHost \<Rightarrow> files \<Rightarrow> error option \<times> files" where
  "AddSSHHost host fs =
     (if \<not> home fs then (Some ErrNoHome, fs)
      else
        let (berr, fs1) = (if config fs \<noteq> None then backupConfig fs else (None, fs)) in
        case berr of
          Some e \<Rightarrow> (Some (BackupFailed e), fs1)
        | None \<Rightarrow>
            (case HostExists (Name host) fs1 of
               (exists, Some e) \<Rightarrow> (Some e, fs1)
             | (True, None) \<Rightarrow> (Some (AlreadyExists (Name host)), fs1)
             | (False, None) \<Rightarrow>
                 (None,
                  fs1\<lparr>config :=
                    Some ((case config fs1 of None \<Rightarrow> [] | Some content \<Rightarrow> content) @ addText host)\<rparr>)))"

text \<open>
  The lines that \<^verbatim>\<open>UpdateSSHHost\<close> appends to \<^verbatim>\<open>newLines\<close> in place of the old block; the
  source has the same statements in both of its branches.
\<close>

definition updateBlock :: "SSHHost \<Rightarrow> string list" where
  "updateBlock newHost =
     [[]]
     @ (if length (Tags newHost) > 0 then [''# Tags: '' @ Join (Tags newHost) '', ''] else [])
     @ [''Host '' @ Name newHost]
     @ [''    HostName '' @ Hostname newHost]
     @ (if User newHost \<noteq> [] then [''    User '' @ User newHost] else [])
     @ (if Port newHost \<noteq> [] \<and> Port newHost \<noteq> ''22'' then [''    Port '' @ Port newHost] else [])
     @ (if Identity newHost \<noteq> [] then [''    IdentityFile '' @ Identity newHost] else [])"

text \<open>
  The inner loop of update and delete: from the line after the \<^verbatim>\<open>Host\<close> line, skip the
  lines that are neither blank nor start (trimmed) with \<^verbatim>\<open>Host\<close> and a space.
\<close>

definition inBlock :: "string \<Rightarrow> bool" where
  "inBlock l \<longleftrightarrow> TrimSpace l \<noteq> [] \<and> \<not> HasPrefix (TrimSpace l) ''Host ''"

definition skipBlock :: "string list \<Rightarrow> string list" where
  "skipBlock ls = dropWhile inBlock ls"

text \<open>
  The loop of \<^verbatim>\<open>UpdateSSHHost\<close>. Its first list is \<^verbatim>\<open>lines[i:]\<close>, the lines from index
  \<^verbatim>\<open>i\<close> on; \<open>newLines\<close> and \<open>hostFound\<close> are the variables of the source. The index
  \<^verbatim>\<open>strings.Fields(line)[1]\<close> panics when there are fewer than two fields.
\<close>

function updateLoop ::
  "string \<Rightarrow> SSHHost \<Rightarrow> string list \<Rightarrow> string list \<Rightarrow> bool \<Rightarrow> error + (string list \<times> bool)"
where
  "updateLoop oldName newHost [] newLines hostFound = Inr (newLines, hostFound)"
| "updateLoop oldName newHost (l # rest) newLines hostFound =
     (let line = TrimSpace l in
      if HasPrefix line ''# Tags:'' \<and> rest \<noteq> [] \<and> TrimSpace (hd rest) = ''Host '' @ oldName then
        updateLoop oldName newHost (skipBlock (tl rest)) (newLines @ updateBlock newHost) True
      else if HasPrefix line ''Host '' then
        (case Fields line of
           f0 # f1 # fs \<Rightarrow>
             if f1 = oldName then
               updateLoop oldName newHost (skipBlock rest) (newLines @ updateBlock newHost) True
             else updateLoop oldName newHost rest (newLines @ [l]) hostFound
         | _ \<Rightarrow> Inl IndexOutOfRange)
      else updateLoop oldName newHost rest (newLines @ [l]) hostFound)"
  by pat_completeness auto
termination
proof (relation "measure (\<lambda>(oldName, newHost, ls, newLines, hostFound). length ls)", goal_cases)
  case (2 oldName newHost l rest newLines hostFound line)
  have "length (skipBlock (tl rest)) \<le> length (tl rest)"
    unfolding skipBlock_def by (rule length_dropWhile_le)
  then show ?case by simp
next
  case (3 oldName newHost l rest newLines hostFound line)
  have "length (skipBlock rest) \<le> length rest"
    unfolding skipBlock_def by (rule length_dropWhile_le)
  then show ?case by simp
qed simp_all

definition UpdateSSHHost :: "string \<Rightarrow> SSHHost \<Rightarrow> files \<Rightarrow> error option \<times> files" where
  "UpdateSSHHost oldName newHost fs =
     (if \<not> home fs then (Some ErrNoHome, fs)
      else
        case backupConfig fs of
          (Some e, fs1) \<Rightarrow> (Some (BackupFailed e), fs1)
        | (None, fs1) \<Rightarrow>
            (case config fs1 of
               None \<Rightarrow> (Some ErrNotExist, fs1)
             | Some content \<Rightarrow>
                 (case updateLoop oldName newHost (Split content CHR 0x0A) [] False of
                    Inl e \<Rightarrow> (Some e, fs1)
                  | Inr (newLines, hostFound) \<Rightarrow>
                      if \<not> hostFound then (Some (NotFound oldName), fs1)
                      else (None, fs1\<lparr>config := Some (Join newLines [CHR 0x0A])\<rparr>))))"

text \<open>After a deleted block, one blank line is skipped when there is one.\<close>

definition skipBlank :: "string list \<Rightarrow> string list" where
  "skipBlank ls = (case ls of [] \<Rightarrow> [] | l # rest \<Rightarrow> if TrimSpace l = [] then rest else ls)"

function deleteLoop ::
  "string \<Rightarrow> string list \<Rightarrow> string list \<Rightarrow> bool \<Rightarrow> error + (string list \<times> bool)"
where
  "deleteLoop hostName [] newLines hostFound = Inr (newLines, hostFound)"
| "deleteLoop hostName (l # rest) newLines hostFound =
     (let line = TrimSpace l in
      if HasPrefix line ''# Tags:'' \<and> rest \<noteq> [] \<and> TrimSpace (hd rest) = ''Host '' @ hostName then
        deleteLoop hostName (skipBlank (skipBlock (tl rest))) newLines True
      else if HasPrefix line ''Host '' then
        (case Fields line of
           f0 # f1 # fs \<Rightarrow>
             if f1 = hostName then deleteLoop hostName (skipBlank (skipBlock rest)) newLines True
             else deleteLoop hostName rest (newLines @ [l]) hostFound
         | _ \<Rightarrow> Inl IndexOutOfRange)
      else deleteLoop hostName rest (newLines @ [l]) hostFound)"
  by pat_completeness auto
termination
proof (relation "measure (\<lambda>(hostName, ls, newLines, hostFound). length ls)", goal_cases)
  have "length (skipBlank ls) \<le> length ls" for ls
    by (simp add: skipBlank_def split: list.splits)
  then have blank: "length (skipBlank (skipBlock ls)) \<le> length ls" for ls
    unfolding skipBlock_def by (rule order_trans) (rule length_dropWhile_le)
  {
    case (2 hostName l rest newLines hostFound line)
    show ?case using blank [of "tl rest"] by simp
  next
    case (3 hostName l rest newLines hostFound line)
    show ?case using blank [of rest] by simp
  }
qed simp_all

definition DeleteSSHHost :: "string \<Rightarrow> files \<Rightarrow> error option \<times> files" where
  "DeleteSSHHost hostName fs =
     (if \<not> home fs then (Some ErrNoHome, fs)
      else
        case backupConfig fs of
          (Some e, fs1) \<Rightarrow> (Some (BackupFailed e), fs1)
        | (None, fs1) \<Rightarrow>
            (case config fs1 of
               None \<Rightarrow> (Some ErrNotExist, fs1)
             | Some content \<Rightarrow>
                 (case deleteLoop hostName (Split content CHR 0x0A) [] False of
                    Inl e \<Rightarrow> (Some e, fs1)
                  | Inr (newLines, hostFound) \<Rightarrow>
                      if \<not> hostFound then (Some (NotFound hostName), fs1)
                      else (None, fs1\<lparr>config := Some (Join newLines [CHR 0x0A])\<rparr>))))"

section \<open>The locator, as the two loops apply it\<close>

text \<open>
  The two tests that update and delete make at a line \<^verbatim>\<open>lines[i]\<close>: the tags-annotated
  branch looks at the line and the one after it, the bare branch at the line alone.
\<close>

definition tagsBranch :: "string \<Rightarrow> string list \<Rightarrow> bool" where
  "tagsBranch name ls =
     (case ls of
        l # l' # rest \<Rightarrow> HasPrefix (TrimSpace l) ''# Tags:'' \<and> TrimSpace l' = ''Host '' @ name
      | _ \<Rightarrow> False)"

definition hostBranch :: "string \<Rightarrow> string \<Rightarrow> bool" where
  "hostBranch name l =
     (HasPrefix (TrimSpace l) ''Host '' \<and>
      (case Fields (TrimSpace l) of f0 # f1 # fs \<Rightarrow> f1 = name | _ \<Rightarrow> False))"

text \<open>No block matches: neither test succeeds at any line.\<close>

fun noMatch :: "string \<Rightarrow> string list \<Rightarrow> bool" where
  "noMatch name [] = True"
| "noMatch name (l # rest) =
     (\<not> tagsBranch name (l # rest) \<and> \<not> hostBranch name l \<and> noMatch name rest)"

text \<open>
  What the two loops compute, without their accumulators: the lines of the rewritten
  file. \<open>updateLoop_eq\<close> and \<open>deleteLoop_eq\<close> below show that the loops return these.
\<close>

function updateLines :: "string \<Rightarrow> SSHHost \<Rightarrow> string list \<Rightarrow> string list" where
  "updateLines oldName newHost [] = []"
| "updateLines oldName newHost (l # rest) =
     (if tagsBranch oldName (l # rest) then
        updateBlock newHost @ updateLines oldName newHost (skipBlock (tl rest))
      else if hostBranch oldName l then
        updateBlock newHost @ updateLines oldName newHost (skipBlock rest)
      else l # updateLines oldName newHost rest)"
  by pat_completeness auto
termination
proof (relation "measure (\<lambda>(oldName, newHost, ls). length ls)", goal_cases)
  case (2 oldName newHost l rest)
  have "length (skipBlock (tl rest)) \<le> length (tl rest)"
    unfolding skipBlock_def by (rule length_dropWhile_le)
  then show ?case by simp
next
  case (3 oldName newHost l rest)
  have "length (skipBlock rest) \<le> length rest"
    unfolding skipBlock_def by (rule length_dropWhile_le)
  then show ?case by simp
qed simp_all

function deleteLines :: "string \<Rightarrow> string list \<Rightarrow> string list" where
  "deleteLines hostName [] = []"
| "deleteLines hostName (l # rest) =
     (if tagsBranch hostName (l # rest) then deleteLines hostName (skipBlank (skipBlock (tl rest)))
      else if hostBranch hostName l then deleteLines hostName (skipBlank (skipBlock rest))
      else l # deleteLines hostName rest)"
  by pat_completeness auto
termination
proof (relation "measure (\<lambda>(hostName, ls). length ls)", goal_cases)
  have "length (skipBlank ls) \<le> length ls" for ls
    by (simp add: skipBlank_def split: list.splits)
  then have blank: "length (skipBlank (skipBlock ls)) \<le> length ls" for ls
    unfolding skipBlock_def by (rule order_trans) (rule length_dropWhile_le)
  {
    case (2 hostName l rest)
    show ?case using blank [of "tl rest"] by simp
  next
    case (3 hostName l rest)
    show ?case using blank [of rest] by simp
  }
qed simp_all

section \<open>Notions used in the statements\<close>

text \<open>
  The key under which the \<^verbatim>\<open>switch\<close> of the parser sees a line, \<open>None\<close> for a line that
  does not reach it (blank, comment, fewer than two fields).
\<close>

definition keyOf :: "string \<Rightarrow> string option" where
  "keyOf text =
     (let line = TrimSpace text in
      if line = [] \<or> HasPrefix line ''#'' then None
      else let parts = Fields line in if length parts < 2 then None else Some (ToLower (hd parts)))"

text \<open>
  The lines close a host under construction before they set a field: the first line
  among them that the \<^verbatim>\<open>switch\<close> acts on, if any, is a \<^verbatim>\<open>Host\<close> line.
\<close>

fun closesHost :: "string list \<Rightarrow> bool" where
  "closesHost [] = True"
| "closesHost (l # ls) =
     (if keyOf l = Some ''host'' then True
      else if keyOf l \<in> Some ` {''hostname'', ''user'', ''port'', ''identityfile'', ''proxyjump''}
        then False
      else closesHost ls)"

text \<open>A line that the parser skips without reading tags: blank, or a comment other than tags.\<close>

definition ignored :: "string \<Rightarrow> bool" where
  "ignored l \<longleftrightarrow>
     TrimSpace l = [] \<or> (HasPrefix (TrimSpace l) ''#'' \<and> \<not> HasPrefix (TrimSpace l) ''# Tags:'')"

text \<open>
  A line as the scanner delivers it whole: it holds no line feed and is shorter than the
  scanner's buffer.
\<close>

definition scannable :: "string \<Rightarrow> bool" where
  "scannable l \<longleftrightarrow> CHR 0x0A \<notin> set l \<and> length l < MaxScanTokenSize"

text \<open>The value the parser stores for a directive whose text after the key is \<open>v\<close>.\<close>

definition readField :: "string \<Rightarrow> string" where
  "readField v = Join (Fields v) '' ''"

text \<open>
  The lines of an entry as create writes them after its first line feed: those of update,
  then the ProxyJump line.
\<close>

definition addLines :: "SSHHost \<Rightarrow> string list" where
  "addLines host =
     updateBlock host
     @ (if ProxyJump host \<noteq> [] then [''    ProxyJump '' @ ProxyJump host] else [])"

text \<open>
  The entry that the parser builds from the lines of \<open>h\<close>, with \<open>pending\<close> the tags
  pending before them: every value as the parser stores it, the port 22 when no port is
  read, the tags of the tags line after the pending ones.
\<close>

definition readBack :: "SSHHost \<Rightarrow> string list \<Rightarrow> SSHHost" where
  "readBack h pending =
     \<lparr>Name = readField (Name h),
      Hostname = readField (Hostname h),
      User = readField (User h),
      Port = (if Fields (Port h) = [] then ''22'' else readField (Port h)),
      Identity = readField (Identity h),
      ProxyJump = readField (ProxyJump h),
      Tags = (if Tags h = [] then pending
              else addTags pending (TrimSpace (''# Tags: '' @ Join (Tags h) '', '')))\<rparr>"

text \<open>A tag as the parser reads tags: not empty, trimmed, without a comma.\<close>

definition cleanTag :: "string \<Rightarrow> bool" where
  "cleanTag t \<longleftrightarrow> t \<noteq> [] \<and> TrimSpace t = t \<and> CHR '','' \<notin> set t"


text \<open>
  The block of \<open>name\<close> that update and delete find when they reach \<open>span\<close> after the
  lines \<open>pre\<close>, on a file where their two tests agree. Either the block starts with a
  tags line, and the line after it is a Host line which is, trimmed, \<^verbatim>\<open>Host\<close>, a space and the
  name, and whose second field is the name; or it starts with a Host line whose second field
  is the name, and the line before it is not a tags line. Then come the lines that the
  inner loop skips. A Host line under a tags line whose second field is the name without
  the trimmed line being \<^verbatim>\<open>Host\<close>, a space and the name (or the converse) is no block in
  this sense: there the two branches of the loops differ.
\<close>

definition blockOf :: "string \<Rightarrow> string list \<Rightarrow> string list \<Rightarrow> bool" where
  "blockOf name pre span =
     (case span of
        [] \<Rightarrow> False
      | l # rest \<Rightarrow>
          if HasPrefix (TrimSpace l) ''# Tags:'' then
            (case rest of
               [] \<Rightarrow> False
             | l' # body \<Rightarrow>
                 TrimSpace l' = ''Host '' @ name \<and> hostBranch name l' \<and> list_all inBlock body)
          else hostBranch name l \<and>
               (pre = [] \<or> \<not> HasPrefix (TrimSpace (last pre)) ''# Tags:'') \<and>
               list_all inBlock rest)"

text \<open>The inner loop stops at these lines: there is none, or the first is blank or a Host line.\<close>

definition blockEnd :: "string list \<Rightarrow> bool" where
  "blockEnd post = (case post of [] \<Rightarrow> True | l # rest \<Rightarrow> \<not> inBlock l)"

text \<open>
  Two notions for comparing what the parser reads from the same lines after different
  beginnings. The first host of a parsing state is the first of the hosts it has closed, or
  the host under construction when it has closed none; \<open>mapFirst\<close> applies a function to it.
\<close>

definition firstHost :: "pstate \<Rightarrow> SSHHost option" where
  "firstHost st = (case hosts st of [] \<Rightarrow> currentHost st | c # r \<Rightarrow> Some c)"

definition mapFirst :: "(SSHHost \<Rightarrow> SSHHost) \<Rightarrow> pstate \<Rightarrow> pstate" where
  "mapFirst f st =
     (case hosts st of
        [] \<Rightarrow> st\<lparr>currentHost := map_option f (currentHost st)\<rparr>
      | c # r \<Rightarrow> st\<lparr>hosts := f c # r\<rparr>)"

text \<open>The continuation bytes of UTF-8, which follow the first byte of a rune.\<close>

definition cont :: "char \<Rightarrow> bool" where
  "cont c \<longleftrightarrow> 128 \<le> (of_char c :: nat) \<and> (of_char c :: nat) \<le> 191"

section \<open>Properties of the string functions\<close>

subsection \<open>White-space encodings\<close>

lemma spaceLen_cases:
  obtains (none) "spaceLen s = 0" "\<And>e. e \<in> set spaceEncodings \<Longrightarrow> \<not> prefix e s"
  | (some) e where "e \<in> set spaceEncodings" "prefix e s" "spaceLen s = length e"
proof (cases "find (\<lambda>e. prefix e s) spaceEncodings")
  case None
  then have "spaceLen s = 0" by (simp add: spaceLen_def)
  moreover from None have "\<And>e. e \<in> set spaceEncodings \<Longrightarrow> \<not> prefix e s"
    by (simp add: find_None_iff)
  ultimately show ?thesis by (rule none)
next
  case (Some e)
  then have "e \<in> set spaceEncodings" "prefix e s"
    by (auto simp: find_Some_iff)
  moreover from Some have "spaceLen s = length e" by (simp add: spaceLen_def)
  ultimately show ?thesis by (rule some)
qed

lemma spaceLenRev_cases:
  obtains (none) "spaceLenRev r = 0" "\<And>e. e \<in> set spaceEncodings \<Longrightarrow> \<not> prefix (rev e) r"
  | (some) e where "e \<in> set spaceEncodings" "prefix (rev e) r" "spaceLenRev r = length e"
proof (cases "find (\<lambda>e. prefix (rev e) r) spaceEncodings")
  case None
  then have "spaceLenRev r = 0" by (simp add: spaceLenRev_def)
  moreover from None have "\<And>e. e \<in> set spaceEncodings \<Longrightarrow> \<not> prefix (rev e) r"
    by (simp add: find_None_iff)
  ultimately show ?thesis by (rule none)
next
  case (Some e)
  then have "e \<in> set spaceEncodings" "prefix (rev e) r"
    by (auto simp: find_Some_iff)
  moreover from Some have "spaceLenRev r = length e" by (simp add: spaceLenRev_def)
  ultimately show ?thesis by (rule some)
qed

lemma encoding_nonempty: "e \<in> set spaceEncodings \<Longrightarrow> e \<noteq> []"
  by (auto simp: spaceEncodings_def)

lemma spaceLen_pos_iff: "0 < spaceLen s \<longleftrightarrow> (\<exists>e \<in> set spaceEncodings. prefix e s)"
  by (cases s rule: spaceLen_cases) (auto dest: encoding_nonempty)

lemma spaceLenRev_pos_iff: "0 < spaceLenRev r \<longleftrightarrow> (\<exists>e \<in> set spaceEncodings. prefix (rev e) r)"
  by (cases r rule: spaceLenRev_cases) (auto dest: encoding_nonempty)

lemma spaceLen_le: "spaceLen s \<le> length s"
  by (cases s rule: spaceLen_cases) (auto dest: prefix_length_le)

lemma spaceLen_take: "0 < spaceLen s \<Longrightarrow> take (spaceLen s) s \<in> set spaceEncodings"
  by (cases s rule: spaceLen_cases) (auto simp: prefix_def)

lemma spaceLenRev_append: "0 < spaceLenRev r \<Longrightarrow> 0 < spaceLenRev (r @ q)"
  unfolding spaceLenRev_pos_iff by (meson prefix_prefix)

lemma spaceLenRev_trimLeftRev: "spaceLenRev (trimLeftRev r) = 0"
proof (induction r rule: trimLeftRev.induct)
  case 1
  show ?case by (cases "[] :: string" rule: spaceLenRev_cases) (auto dest: encoding_nonempty)
next
  case (2 c r)
  then show ?case by simp
qed

lemma fieldsFrom_tok: "tok \<noteq> [] \<Longrightarrow> fieldsFrom tok s \<noteq> []"
  by (induction tok s rule: fieldsFrom.induct) auto

lemma fields_empty_ends_space:
  "fieldsFrom [] r = [] \<Longrightarrow> r \<noteq> [] \<Longrightarrow> 0 < spaceLenRev (rev r)"
proof (induction r rule: length_induct)
  case (1 r)
  then obtain c s where r: "r = c # s" by (cases r) auto
  show ?case
  proof (cases "spaceLen r = 0")
    case True
    with "1.prems" r have "fieldsFrom [c] s = []" by simp
    then show ?thesis using fieldsFrom_tok [of "[c]" s] by simp
  next
    case False
    define n where "n = spaceLen r"
    from False have e: "take n r \<in> set spaceEncodings" and n: "0 < n"
      by (simp_all add: n_def spaceLen_take)
    have rest: "drop (n - 1) s = drop n r" using n r by (cases n) auto
    from "1.prems" False r have f: "fieldsFrom [] (drop n r) = []"
      using rest by (simp add: n_def)
    have split: "rev r = rev (drop n r) @ rev (take n r)"
      by (metis append_take_drop_id rev_append)
    show ?thesis
    proof (cases "drop n r = []")
      case True
      with split have "rev r = rev (take n r)" by simp
      with e show ?thesis unfolding spaceLenRev_pos_iff by auto
    next
      case False
      have "length (drop n r) < length r" using n r by simp
      with "1.IH" f False have "0 < spaceLenRev (rev (drop n r))" by blast
      then show ?thesis using split spaceLenRev_append by metis
    qed
  qed
qed

lemma spaceLenRev_TrimSpace: "spaceLenRev (rev (TrimSpace s)) = 0"
  by (simp add: TrimSpace_def trimRight_def spaceLenRev_trimLeftRev)

lemma Fields_Host: "Fields (''Host '' @ r) = ''Host'' # Fields r"
  by (simp add: Fields_def spaceLen_def spaceEncodings_def)

lemma Host_line_two_fields:
  assumes "HasPrefix (TrimSpace l) ''Host ''"
  shows "2 \<le> length (Fields (TrimSpace l))"
proof -
  from assms obtain r where r: "TrimSpace l = ''Host '' @ r"
    by (auto simp: HasPrefix_def prefix_def)
  have "Fields r \<noteq> []"
  proof
    assume "Fields r = []"
    then have "r = [] \<or> 0 < spaceLenRev (rev r)"
      using fields_empty_ends_space [of r] unfolding Fields_def by (cases "r = []") simp_all
    then have "0 < spaceLenRev (rev (''Host '' @ r))"
    proof
      assume "r = []"
      then show ?thesis by (simp add: spaceLenRev_def spaceEncodings_def)
    next
      assume "0 < spaceLenRev (rev r)"
      then show ?thesis using spaceLenRev_append [of "rev r" "rev ''Host ''"] by simp
    qed
    then show False using spaceLenRev_TrimSpace [of l] r by simp
  qed
  then show ?thesis unfolding r Fields_Host by (cases "Fields r") simp_all
qed

lemma encoding_shape:
  "e \<in> set spaceEncodings \<Longrightarrow> e \<noteq> [] \<and> \<not> cont (hd e) \<and> list_all cont (tl e)"
  by (auto simp: spaceEncodings_def cont_def)

lemma encoding_length:
  "e \<in> set spaceEncodings \<Longrightarrow>
     length e = (if hd e = CHR 0xC2 then 2 else if hd e \<in> {CHR 0xE1, CHR 0xE2, CHR 0xE3} then 3 else 1)"
  by (auto simp: spaceEncodings_def)

lemma encoding_prefix_free:
  assumes "e \<in> set spaceEncodings" "e' \<in> set spaceEncodings" "prefix e' e"
  shows "e' = e"
proof -
  from assms have "hd e' = hd e"
    using encoding_shape by (auto simp: prefix_def)
  with assms(1,2) have "length e' = length e" by (simp add: encoding_length)
  with assms(3) show ?thesis by (auto simp: prefix_def)
qed

lemma spaceLen_encoding: "e \<in> set spaceEncodings \<Longrightarrow> spaceLen (e @ s) = length e"
proof (cases "e @ s" rule: spaceLen_cases)
  case none
  assume "e \<in> set spaceEncodings"
  with none(2) [of e] show ?thesis by simp
next
  case (some e')
  assume e: "e \<in> set spaceEncodings"
  from some(2) have "prefix e' e \<or> prefix e e'"
    by (metis prefixI prefix_same_cases)
  with e some(1) have "e' = e" using encoding_prefix_free by blast
  with some(3) show ?thesis by simp
qed

text \<open>What follows a string does not change the rune at its head, unless it continues it.\<close>

lemma spaceLen_append:
  assumes "x \<noteq> []" and "y = [] \<or> \<not> cont (hd y)"
  shows "spaceLen (x @ y) = spaceLen x"
proof -
  have "prefix e (x @ y) \<longleftrightarrow> prefix e x" if e: "e \<in> set spaceEncodings" for e
  proof
    assume p: "prefix e (x @ y)"
    show "prefix e x"
    proof (rule ccontr)
      assume np: "\<not> prefix e x"
      with p obtain y1 y2 where y: "e = x @ y1" "y1 \<noteq> []" "y = y1 @ y2"
        by (metis append.right_neutral prefix_append prefix_def)
      with assms have "\<not> cont (hd y1)" by (cases y1) auto
      moreover from y assms(1) have "hd y1 \<in> set (tl e)" by (cases x; cases y1) auto
      ultimately show False using encoding_shape [OF e] by (auto simp: list_all_iff)
    qed
  qed auto
  then have "find (\<lambda>e. prefix e (x @ y)) spaceEncodings = find (\<lambda>e. prefix e x) spaceEncodings"
    by (intro find_cong) auto
  then show ?thesis by (simp add: spaceLen_def)
qed

lemma encoding_hd_not_cont: "e \<in> set spaceEncodings \<Longrightarrow> e = [] \<or> \<not> cont (hd e)"
  using encoding_shape by blast

subsection \<open>Fields\<close>

lemma fieldsFrom_trimLeft: "spaceLen s = 0 \<or> tok = [] \<Longrightarrow> fieldsFrom tok (trimLeft s) = fieldsFrom tok s"
proof (induction s rule: trimLeft.induct)
  case 1
  show ?case by simp
next
  case (2 c s)
  then show ?case by (cases "spaceLen (c # s) = 0") auto
qed

lemma Fields_trimLeft: "Fields (trimLeft s) = Fields s"
  by (simp add: Fields_def fieldsFrom_trimLeft)

lemma fieldsFrom_append_encoding:
  "e \<in> set spaceEncodings \<Longrightarrow> fieldsFrom tok (s @ e) = fieldsFrom tok s"
proof (induction tok s rule: fieldsFrom.induct)
  case (1 tok)
  from 1 have "e \<noteq> []" by (rule encoding_nonempty)
  then obtain c e' where e: "e = c # e'" by (auto simp: neq_Nil_conv)
  from 1 have "spaceLen (e @ []) = length e" by (rule spaceLen_encoding)
  with e show ?case by simp
next
  case (2 tok c s)
  have sl: "spaceLen ((c # s) @ e) = spaceLen (c # s)"
    using "2.prems" encoding_hd_not_cont by (intro spaceLen_append) auto
  show ?case
  proof (cases "spaceLen (c # s) = 0")
    case True
    with 2 sl show ?thesis by simp
  next
    case False
    have "spaceLen (c # s) - 1 \<le> length s" using spaceLen_le [of "c # s"] by simp
    with 2 sl False show ?thesis by simp
  qed
qed

lemma Fields_append_encoding: "e \<in> set spaceEncodings \<Longrightarrow> Fields (s @ e) = Fields s"
  by (simp add: Fields_def fieldsFrom_append_encoding)

lemma spaceLenRev_take:
  "0 < spaceLenRev r \<Longrightarrow> \<exists>e \<in> set spaceEncodings. r = rev e @ drop (spaceLenRev r) r"
  by (cases r rule: spaceLenRev_cases) (auto simp: prefix_def)

lemma Fields_rev_trimLeftRev: "Fields (rev (trimLeftRev r)) = Fields (rev r)"
proof (induction r rule: trimLeftRev.induct)
  case 1
  show ?case by simp
next
  case (2 c r)
  show ?case
  proof (cases "spaceLenRev (c # r) = 0")
    case True
    then show ?thesis by simp
  next
    case False
    define n where "n = spaceLenRev (c # r)"
    from False obtain e where e: "e \<in> set spaceEncodings" "c # r = rev e @ drop n (c # r)"
      using spaceLenRev_take [of "c # r"] by (auto simp: n_def)
    have d: "drop (n - 1) r = drop n (c # r)" using False by (cases n) (auto simp: n_def)
    have "rev (c # r) = rev (drop n (c # r)) @ e"
      using e(2) by (metis rev_append rev_rev_ident)
    then have "Fields (rev (c # r)) = Fields (rev (drop (n - 1) r))"
      using e(1) d by (simp add: Fields_append_encoding del: rev.simps)
    with 2 False show ?thesis by (simp add: n_def del: rev.simps)
  qed
qed

lemma Fields_trimRight: "Fields (trimRight s) = Fields s"
  using Fields_rev_trimLeftRev [of "rev s"] by (simp add: trimRight_def)

lemma Fields_TrimSpace: "Fields (TrimSpace s) = Fields s"
  by (simp add: TrimSpace_def Fields_trimRight Fields_trimLeft)

lemma TrimSpace_Nil_iff: "TrimSpace s = [] \<longleftrightarrow> Fields s = []"
proof
  assume "TrimSpace s = []"
  then have "Fields (TrimSpace s) = []" by (simp add: Fields_def)
  then show "Fields s = []" by (simp add: Fields_TrimSpace)
next
  assume "Fields s = []"
  then have f: "fieldsFrom [] (TrimSpace s) = []" by (simp add: Fields_TrimSpace flip: Fields_def)
  show "TrimSpace s = []"
  proof (rule ccontr)
    assume "TrimSpace s \<noteq> []"
    with f have "0 < spaceLenRev (rev (TrimSpace s))" by (rule fields_empty_ends_space)
    then show False by (simp add: spaceLenRev_TrimSpace)
  qed
qed

subsection \<open>TrimSpace\<close>

lemma trimLeft_id: "spaceLen s = 0 \<Longrightarrow> trimLeft s = s"
  by (cases s) simp_all

lemma trimLeftRev_id: "spaceLenRev r = 0 \<Longrightarrow> trimLeftRev r = r"
  by (cases r) simp_all

lemma trimRight_id: "spaceLenRev (rev s) = 0 \<Longrightarrow> trimRight s = s"
  by (simp add: trimRight_def trimLeftRev_id)

lemma suffix_trimLeftRev: "suffix (trimLeftRev r) r"
proof (induction r rule: trimLeftRev.induct)
  case 1
  show ?case by simp
next
  case (2 c r)
  show ?case
  proof (cases "spaceLenRev (c # r) = 0")
    case True
    then show ?thesis by simp
  next
    case False
    with 2 have "suffix (trimLeftRev (c # r)) (drop (spaceLenRev (c # r) - 1) r)" by simp
    then show ?thesis
      by (meson suffix_Cons suffix_drop suffix_order.trans)
  qed
qed

lemma prefix_trimRight: "prefix (trimRight s) s"
  using suffix_trimLeftRev [of "rev s"] by (simp add: trimRight_def suffix_to_prefix)

lemma spaceLen_Nil: "spaceLen [] = 0"
  by (simp add: spaceLen_def spaceEncodings_def)

lemma spaceLen_trimLeft: "spaceLen (trimLeft s) = 0"
  by (induction s rule: trimLeft.induct) (simp_all add: spaceLen_Nil)

lemma spaceLen_prefix: "spaceLen s = 0 \<Longrightarrow> prefix p s \<Longrightarrow> spaceLen p = 0"
proof (rule ccontr)
  assume "spaceLen s = 0" "prefix p s" "spaceLen p \<noteq> 0"
  then obtain e where "e \<in> set spaceEncodings" "prefix e p"
    using spaceLen_pos_iff [of p] by auto
  with \<open>prefix p s\<close> have "0 < spaceLen s"
    unfolding spaceLen_pos_iff by (meson prefix_order.trans)
  with \<open>spaceLen s = 0\<close> show False by simp
qed

lemma spaceLen_TrimSpace: "spaceLen (TrimSpace s) = 0"
  unfolding TrimSpace_def using spaceLen_trimLeft prefix_trimRight by (rule spaceLen_prefix)

lemma TrimSpace_id: "spaceLen s = 0 \<Longrightarrow> spaceLenRev (rev s) = 0 \<Longrightarrow> TrimSpace s = s"
  by (simp add: TrimSpace_def trimLeft_id trimRight_id)

lemma TrimSpace_idem: "TrimSpace (TrimSpace s) = TrimSpace s"
  by (simp add: TrimSpace_id spaceLen_TrimSpace spaceLenRev_TrimSpace)

lemma HasPrefix_TrimSpace: "HasPrefix (TrimSpace s) p \<Longrightarrow> HasPrefix (trimLeft s) p"
  unfolding HasPrefix_def TrimSpace_def using prefix_trimRight by (meson prefix_order.trans)

lemma encoding_suffix_free:
  assumes "e \<in> set spaceEncodings" "e' \<in> set spaceEncodings" "suffix e' e"
  shows "e' = e"
proof (rule ccontr)
  assume ne: "e' \<noteq> e"
  from assms(3) obtain x where x: "e = x @ e'" by (auto simp: suffix_def)
  with ne have "x \<noteq> []" by auto
  moreover from assms(2) have "e' \<noteq> []" by (rule encoding_nonempty)
  ultimately have "hd e' \<in> set (tl e)" using x by (cases x; cases e') auto
  then have "cont (hd e')" using encoding_shape [OF assms(1)] by (auto simp: list_all_iff)
  then show False using encoding_shape [OF assms(2)] by simp
qed

lemma spaceLenRev_encoding: "e \<in> set spaceEncodings \<Longrightarrow> spaceLenRev (rev e @ q) = length e"
proof (cases "rev e @ q" rule: spaceLenRev_cases)
  case none
  assume "e \<in> set spaceEncodings"
  with none(2) [of e] show ?thesis by simp
next
  case (some e')
  assume e: "e \<in> set spaceEncodings"
  from some(2) have "prefix (rev e') (rev e) \<or> prefix (rev e) (rev e')"
    by (metis prefixI prefix_same_cases)
  then have "suffix e' e \<or> suffix e e'" by (simp add: suffix_to_prefix)
  with e some(1) have "e' = e" using encoding_suffix_free by metis
  with some(3) show ?thesis by simp
qed

lemma trimLeft_append_encoding:
  "e \<in> set spaceEncodings \<Longrightarrow>
     trimLeft (s @ e) = (if trimLeft s = [] then [] else trimLeft s @ e)"
proof (induction s rule: trimLeft.induct)
  case 1
  then have "e \<noteq> []" by (rule encoding_nonempty)
  then obtain c e' where e: "e = c # e'" by (auto simp: neq_Nil_conv)
  from 1 have "spaceLen (e @ []) = length e" by (rule spaceLen_encoding)
  with e show ?case by simp
next
  case (2 c s)
  have sl: "spaceLen ((c # s) @ e) = spaceLen (c # s)"
    using "2.prems" encoding_hd_not_cont by (intro spaceLen_append) auto
  show ?case
  proof (cases "spaceLen (c # s) = 0")
    case True
    with sl show ?thesis by simp
  next
    case False
    have "spaceLen (c # s) - 1 \<le> length s" using spaceLen_le [of "c # s"] by simp
    with 2 sl False show ?thesis by simp
  qed
qed

lemma trimRight_append_encoding:
  assumes "e \<in> set spaceEncodings"
  shows "trimRight (s @ e) = trimRight s"
proof -
  from assms have "e \<noteq> []" by (rule encoding_nonempty)
  then obtain c r where r: "rev e = c # r" by (cases "rev e") auto
  have n: "spaceLenRev (rev e @ rev s) = length e" using assms by (rule spaceLenRev_encoding)
  have "length r = length e - 1" using r by (metis length_rev length_tl list.sel(3))
  then have "drop (length e - 1) (r @ rev s) = rev s" by simp
  with n r \<open>e \<noteq> []\<close> have "trimLeftRev (rev e @ rev s) = trimLeftRev (rev s)" by simp
  then show ?thesis by (simp add: trimRight_def)
qed

lemma TrimSpace_append_encoding:
  "e \<in> set spaceEncodings \<Longrightarrow> TrimSpace (s @ e) = TrimSpace s"
  by (cases "trimLeft s = []")
     (simp_all add: TrimSpace_def trimLeft_append_encoding trimRight_append_encoding)

lemma TrimSpace_dropCR: "TrimSpace (dropCR l) = TrimSpace l"
proof (cases "l \<noteq> [] \<and> last l = CHR 0x0D")
  case True
  then have "l = butlast l @ [CHR 0x0D]" by (metis append_butlast_last_id)
  moreover have "[CHR 0x0D] \<in> set spaceEncodings" by (simp add: spaceEncodings_def)
  ultimately have "TrimSpace l = TrimSpace (butlast l)"
    using TrimSpace_append_encoding by metis
  with True show ?thesis by (simp add: dropCR_def)
next
  case False
  then show ?thesis by (auto simp: dropCR_def)
qed

subsection \<open>One line of the parser\<close>

lemma parseLine_dropCR: "parseLine st (dropCR l) = parseLine st l"
  by (simp add: parseLine_def TrimSpace_dropCR)

lemma parseLine_blank: "TrimSpace l = [] \<Longrightarrow> parseLine st l = st"
  by (simp add: parseLine_def)

lemma parseLine_tags:
  "HasPrefix (TrimSpace l) ''# Tags:'' \<Longrightarrow>
     parseLine st l = st\<lparr>pendingTags := addTags (pendingTags st) (TrimSpace l)\<rparr>"
  by (auto simp: parseLine_def Let_def HasPrefix_def)

lemma parseLine_comment:
  "HasPrefix (TrimSpace l) ''#'' \<Longrightarrow> \<not> HasPrefix (TrimSpace l) ''# Tags:'' \<Longrightarrow> parseLine st l = st"
  by (simp add: parseLine_def Let_def)

lemma tags_is_comment: "HasPrefix s ''# Tags:'' \<Longrightarrow> HasPrefix s ''#''"
  by (auto simp: HasPrefix_def prefix_def)

lemma parseLine_fields:
  assumes "\<not> HasPrefix (trimLeft l) ''#''"
  shows "parseLine st l =
     (case Fields l of k # v # vs \<Rightarrow> directive (ToLower k) (Join (v # vs) '' '') st | _ \<Rightarrow> st)"
proof -
  from assms have c: "\<not> HasPrefix (TrimSpace l) ''#''" "\<not> HasPrefix (TrimSpace l) ''# Tags:''"
    using HasPrefix_TrimSpace tags_is_comment by blast+
  show ?thesis
  proof (cases "Fields l" rule: remdups_adj.cases)
    case 1
    then show ?thesis by (simp add: parseLine_def Let_def TrimSpace_Nil_iff)
  next
    case (2 k)
    with c show ?thesis by (simp add: parseLine_def Let_def Fields_TrimSpace)
  next
    case (3 k v vs)
    then have "TrimSpace l \<noteq> []" by (simp add: TrimSpace_Nil_iff)
    with 3 c show ?thesis by (simp add: parseLine_def Let_def Fields_TrimSpace)
  qed
qed

lemma encoding_multibyte:
  "e \<in> set spaceEncodings \<Longrightarrow> 2 \<le> length e \<Longrightarrow> list_all (\<lambda>c. 128 \<le> (of_char c :: nat)) e"
  by (auto simp: spaceEncodings_def)

text \<open>Seen from the end, an ASCII byte before a string does not change the rune that ends it.\<close>

lemma spaceLenRev_append_ascii:
  assumes "x \<noteq> []" and "y = [] \<or> (of_char (hd y) :: nat) < 128"
  shows "spaceLenRev (x @ y) = spaceLenRev x"
proof -
  have "prefix (rev e) (x @ y) \<longleftrightarrow> prefix (rev e) x" if e: "e \<in> set spaceEncodings" for e
  proof
    assume p: "prefix (rev e) (x @ y)"
    show "prefix (rev e) x"
    proof (rule ccontr)
      assume np: "\<not> prefix (rev e) x"
      with p obtain y1 y2 where y: "rev e = x @ y1" "y1 \<noteq> []" "y = y1 @ y2"
        by (metis append.right_neutral prefix_append prefix_def)
      with assms have a: "(of_char (hd y1) :: nat) < 128" by (cases y1) auto
      from y assms(1) have "2 \<le> length (rev e)" by (cases x; cases y1) auto
      then have "list_all (\<lambda>c. 128 \<le> (of_char c :: nat)) e"
        using e encoding_multibyte by simp
      moreover from y have "hd y1 \<in> set (rev e)" by (cases y1) auto
      ultimately show False using a by (auto simp: list_all_iff)
    qed
  qed auto
  then have "find (\<lambda>e. prefix (rev e) (x @ y)) spaceEncodings
           = find (\<lambda>e. prefix (rev e) x) spaceEncodings"
    by (intro find_cong) auto
  then show ?thesis by (simp add: spaceLenRev_def)
qed

lemma spaceLenRev_le: "spaceLenRev r \<le> length r"
  by (cases r rule: spaceLenRev_cases) (auto dest: prefix_length_le)

lemma suffix_trimLeftRev_keep:
  assumes "spaceLenRev q = 0" and "q \<noteq> []" and "(of_char (hd q) :: nat) < 128"
  shows "suffix q (trimLeftRev (p @ q))"
proof (induction p rule: length_induct)
  case (1 p)
  show ?case
  proof (cases p)
    case Nil
    with assms(1) show ?thesis by (simp add: trimLeftRev_id)
  next
    case (Cons c p')
    have n: "spaceLenRev (p @ q) = spaceLenRev p"
      using Cons assms(3) by (intro spaceLenRev_append_ascii) auto
    show ?thesis
    proof (cases "spaceLenRev p = 0")
      case True
      with n Cons show ?thesis by (simp add: suffix_def)
    next
      case False
      define k where "k = spaceLenRev p"
      have k: "0 < k" "k \<le> length p" using False spaceLenRev_le [of p] by (simp_all add: k_def)
      have "trimLeftRev (p @ q) = trimLeftRev (drop (k - 1) (p' @ q))"
        using n Cons False by (simp add: k_def)
      also have "drop (k - 1) (p' @ q) = drop k p @ q"
        using k Cons by (cases k) auto
      finally have "trimLeftRev (p @ q) = trimLeftRev (drop k p @ q)" .
      moreover have "length (drop k p) < length p" using k Cons by simp
      ultimately show ?thesis using "1.IH" by simp
    qed
  qed
qed

lemma prefix_trimRight_keep:
  assumes "spaceLenRev (rev a) = 0" and "a \<noteq> []" and "(of_char (last a) :: nat) < 128"
  shows "prefix a (trimRight (a @ b))"
proof -
  have "suffix (rev a) (trimLeftRev (rev b @ rev a))"
    using assms by (intro suffix_trimLeftRev_keep) (simp_all add: hd_rev)
  then show ?thesis by (simp add: trimRight_def suffix_to_prefix)
qed

subsection \<open>The lines of an entry, read by the parser\<close>

lemma Fields_literal:
  "Fields (''    HostName '' @ v) = ''HostName'' # Fields v"
  "Fields (''    User '' @ v) = ''User'' # Fields v"
  "Fields (''    Port '' @ v) = ''Port'' # Fields v"
  "Fields (''    IdentityFile '' @ v) = ''IdentityFile'' # Fields v"
  "Fields (''    ProxyJump '' @ v) = ''ProxyJump'' # Fields v"
  by (simp_all add: Fields_def spaceLen_def spaceEncodings_def)

lemma trimLeft_literal:
  "trimLeft (''Host '' @ v) = ''Host '' @ v"
  "trimLeft (''    HostName '' @ v) = ''HostName '' @ v"
  "trimLeft (''    User '' @ v) = ''User '' @ v"
  "trimLeft (''    Port '' @ v) = ''Port '' @ v"
  "trimLeft (''    IdentityFile '' @ v) = ''IdentityFile '' @ v"
  "trimLeft (''    ProxyJump '' @ v) = ''ProxyJump '' @ v"
  "trimLeft (''# Tags: '' @ v) = ''# Tags: '' @ v"
  by (simp_all add: spaceLen_def spaceEncodings_def)

lemma ToLower_literal:
  "ToLower ''Host'' = ''host''"
  "ToLower ''HostName'' = ''hostname''"
  "ToLower ''User'' = ''user''"
  "ToLower ''Port'' = ''port''"
  "ToLower ''IdentityFile'' = ''identityfile''"
  "ToLower ''ProxyJump'' = ''proxyjump''"
  by (simp_all add: lowerByte_def)

lemma parseLine_key_value:
  assumes "Fields l = k # Fields v" and "\<not> HasPrefix (trimLeft l) ''#''"
  shows "parseLine st l = (if Fields v = [] then st else directive (ToLower k) (readField v) st)"
  using assms by (cases "Fields v") (simp_all add: parseLine_fields readField_def)

lemma parseLine_Host:
  "parseLine st (''Host '' @ v) = (if Fields v = [] then st else directive ''host'' (readField v) st)"
  unfolding ToLower_literal [symmetric]
  by (rule parseLine_key_value) (simp_all only: Fields_Host trimLeft_literal, simp add: HasPrefix_def)

lemma parseLine_HostName:
  "parseLine st (''    HostName '' @ v) =
     (if Fields v = [] then st else directive ''hostname'' (readField v) st)"
  unfolding ToLower_literal [symmetric]
  by (rule parseLine_key_value) (simp_all only: Fields_literal trimLeft_literal, simp add: HasPrefix_def)

lemma parseLine_User:
  "parseLine st (''    User '' @ v) = (if Fields v = [] then st else directive ''user'' (readField v) st)"
  unfolding ToLower_literal [symmetric]
  by (rule parseLine_key_value) (simp_all only: Fields_literal trimLeft_literal, simp add: HasPrefix_def)

lemma parseLine_Port:
  "parseLine st (''    Port '' @ v) = (if Fields v = [] then st else directive ''port'' (readField v) st)"
  unfolding ToLower_literal [symmetric]
  by (rule parseLine_key_value) (simp_all only: Fields_literal trimLeft_literal, simp add: HasPrefix_def)

lemma parseLine_IdentityFile:
  "parseLine st (''    IdentityFile '' @ v) =
     (if Fields v = [] then st else directive ''identityfile'' (readField v) st)"
  unfolding ToLower_literal [symmetric]
  by (rule parseLine_key_value) (simp_all only: Fields_literal trimLeft_literal, simp add: HasPrefix_def)

lemma parseLine_ProxyJump:
  "parseLine st (''    ProxyJump '' @ v) =
     (if Fields v = [] then st else directive ''proxyjump'' (readField v) st)"
  unfolding ToLower_literal [symmetric]
  by (rule parseLine_key_value) (simp_all only: Fields_literal trimLeft_literal, simp add: HasPrefix_def)

lemma parseLine_Nil: "parseLine st [] = st"
  by (simp add: parseLine_blank TrimSpace_def trimRight_def)

lemma HasPrefix_Tags_line: "HasPrefix (TrimSpace (''# Tags: '' @ v)) ''# Tags:''"
proof -
  have "prefix ''# Tags:'' (trimRight (''# Tags:'' @ ('' '' @ v)))"
    by (rule prefix_trimRight_keep) (simp_all add: spaceLenRev_def spaceEncodings_def)
  then show ?thesis by (simp add: HasPrefix_def TrimSpace_def trimLeft_literal [simplified])
qed

lemma parseLine_Tags:
  "parseLine st (''# Tags: '' @ v) =
     st\<lparr>pendingTags := addTags (pendingTags st) (TrimSpace (''# Tags: '' @ v))\<rparr>"
  by (rule parseLine_tags) (rule HasPrefix_Tags_line)

subsection \<open>Tags written and read back\<close>

lemma cleanTag_ends: "cleanTag t \<Longrightarrow> t \<noteq> [] \<and> spaceLen t = 0 \<and> spaceLenRev (rev t) = 0"
  using spaceLen_TrimSpace [of t] spaceLenRev_TrimSpace [of t] by (simp add: cleanTag_def)

lemma Split_no_sep: "sep \<notin> set s \<Longrightarrow> Split s sep = [s]"
  by (induction s) auto

lemma Split_not_Nil: "Split s sep \<noteq> []"
  by (induction s) (auto split: list.splits)

lemma Split_append_sep: "sep \<notin> set a \<Longrightarrow> Split (a @ sep # b) sep = a # Split b sep"
  by (induction a) (auto split: list.splits)

lemma Split_Join_comma:
  "list_all (\<lambda>t. CHR '','' \<notin> set t) ts \<Longrightarrow> ts \<noteq> [] \<Longrightarrow>
     Split (Join ts '', '') CHR '','' = hd ts # map ((#) CHR '' '') (tl ts)"
proof (induction ts rule: induct_list012)
  case 1
  then show ?case by simp
next
  case (2 x)
  then show ?case by (simp add: Split_no_sep)
next
  case (3 x y ys)
  have "Split (x @ CHR '','' # CHR '' '' # Join (y # ys) '', '') CHR '','' =
        x # Split (CHR '' '' # Join (y # ys) '', '') CHR '',''"
    using "3.prems" by (intro Split_append_sep) simp
  with 3 show ?case by simp
qed

lemma Join_tags_ends:
  assumes "list_all cleanTag ts" and "ts \<noteq> []"
  shows "Join ts '', '' \<noteq> [] \<and> spaceLen (Join ts '', '') = 0 \<and> spaceLenRev (rev (Join ts '', '')) = 0"
  using assms
proof (induction ts rule: induct_list012)
  case 1
  then show ?case by simp
next
  case (2 x)
  then show ?case using cleanTag_ends by simp
next
  case (3 x y ys)
  then have x: "x \<noteq> []" "spaceLen x = 0" and IH: "Join (y # ys) '', '' \<noteq> []"
    "spaceLenRev (rev (Join (y # ys) '', '')) = 0"
    using cleanTag_ends by auto
  have "spaceLen (x @ ('', '' @ Join (y # ys) '', '')) = spaceLen x"
    using x by (intro spaceLen_append) (simp_all add: cont_def)
  moreover have "spaceLenRev (rev (Join (y # ys) '', '') @ ('' ,'' @ rev x))
               = spaceLenRev (rev (Join (y # ys) '', ''))"
    using IH by (intro spaceLenRev_append_ascii) simp_all
  ultimately show ?case using x IH by simp
qed

lemma TrimSpace_space_tag: "cleanTag t \<Longrightarrow> TrimSpace (CHR '' '' # t) = t"
proof -
  assume t: "cleanTag t"
  have "trimLeft (CHR '' '' # t) = trimLeft t" by (simp add: spaceLen_def spaceEncodings_def)
  with t show ?thesis using cleanTag_ends [OF t] by (simp add: TrimSpace_def trimLeft_id trimRight_id)
qed

lemma addTags_Join:
  assumes "list_all cleanTag ts" and "ts \<noteq> []"
  shows "addTags pending (TrimSpace (''# Tags: '' @ Join ts '', '')) = pending @ ts"
proof -
  define J where "J = Join ts '', ''"
  have J: "J \<noteq> []" "spaceLen J = 0" "spaceLenRev (rev J) = 0"
    using Join_tags_ends [OF assms] by (simp_all add: J_def)
  have "spaceLenRev (rev J @ rev ''# Tags: '') = spaceLenRev (rev J)"
    using J by (intro spaceLenRev_append_ascii) simp_all
  then have line: "TrimSpace (''# Tags: '' @ J) = ''# Tags: '' @ J"
    using J by (intro TrimSpace_id) (simp_all add: spaceLen_def spaceEncodings_def)
  have "trimLeft ('' '' @ J) = trimLeft J" by (simp add: spaceLen_def spaceEncodings_def)
  then have str: "TrimSpace ('' '' @ J) = J"
    using J by (simp add: TrimSpace_def trimLeft_id trimRight_id)
  have commas: "list_all (\<lambda>t. CHR '','' \<notin> set t) ts"
    using assms(1) by (simp add: list_all_iff cleanTag_def)
  have "map TrimSpace (Split J CHR '','') = ts"
  proof -
    from assms obtain t ts' where ts: "ts = t # ts'" by (cases ts) auto
    have "map TrimSpace (map ((#) CHR '' '') ts') = ts'"
      using assms(1) ts by (simp add: list_all_iff map_idI TrimSpace_space_tag)
    moreover have "TrimSpace t = t" using assms(1) ts by (simp add: cleanTag_def)
    ultimately show ?thesis
      unfolding J_def Split_Join_comma [OF commas assms(2)] using ts by simp
  qed
  moreover have "filter (\<lambda>tag. tag \<noteq> []) ts = ts"
    using assms(1) by (simp add: list_all_iff cleanTag_def)
  moreover have tp: "TrimPrefix (''# Tags: '' @ J) ''# Tags:'' = '' '' @ J"
    by (simp add: TrimPrefix_def HasPrefix_def)
  ultimately have "addTags pending (TrimSpace (''# Tags: '' @ J)) = pending @ ts"
    unfolding addTags_def line tp str Let_def using J by simp
  then show ?thesis by (simp only: J_def)
qed

subsection \<open>The block of an entry, read by the parser\<close>

lemmas parseLine_rendered =
  parseLine_Host parseLine_HostName parseLine_User parseLine_Port parseLine_IdentityFile
  parseLine_ProxyJump parseLine_Tags

lemma readField_Nil: "Fields v = [] \<Longrightarrow> readField v = []"
  by (simp add: readField_def)

lemma Fields_Nil: "Fields [] = []"
  by (simp add: Fields_def)

lemma readField_22: "Fields ''22'' = [''22'']" "readField ''22'' = ''22''"
  by (simp_all add: readField_def Fields_def spaceLen_def spaceEncodings_def)

lemma parseLines_append: "parseLines st (a @ b) = parseLines (parseLines st a) b"
  by (simp add: parseLines_def)

lemma parseLines_Cons: "parseLines st (l # ls) = parseLines (parseLine st l) ls"
  by (simp add: parseLines_def)

lemma parseLines_Nil: "parseLines st [] = st"
  by (simp add: parseLines_def)

lemma parseLines_updateBlock:
  assumes "Fields (Name h) \<noteq> []"
  shows "parseLines st (updateBlock h) =
     \<lparr>hosts = finish st,
      currentHost = Some (readBack (h\<lparr>ProxyJump := []\<rparr>) (pendingTags st)),
      pendingTags = []\<rparr>"
  using assms
  by (cases "Port h = ''22''")
     (simp_all add: updateBlock_def parseLines_Cons parseLines_Nil parseLine_rendered [simplified]
        parseLine_Nil directive_def readBack_def initHost_def finish_def readField_Nil Fields_Nil
        readField_22 split: option.splits)

lemma parseLines_addLines:
  assumes "Fields (Name h) \<noteq> []"
  shows "parseLines st (addLines h) =
     \<lparr>hosts = finish st, currentHost = Some (readBack h (pendingTags st)), pendingTags = []\<rparr>"
  using assms
  by (simp add: addLines_def parseLines_append parseLines_updateBlock parseLines_Cons
       parseLines_Nil parseLine_rendered [simplified] directive_def readBack_def readField_Nil
       Fields_Nil)


subsection \<open>The parser by the kind of line\<close>

lemma parseLine_keyOf:
  "parseLine st l =
     (case keyOf l of
        Some k \<Rightarrow> directive k (Join (tl (Fields l)) '' '') st
      | None \<Rightarrow>
          if HasPrefix (TrimSpace l) ''# Tags:''
          then st\<lparr>pendingTags := addTags (pendingTags st) (TrimSpace l)\<rparr> else st)"
  using tags_is_comment [of "TrimSpace l"]
  by (auto simp: parseLine_def keyOf_def Let_def Fields_TrimSpace HasPrefix_def)

lemma parseLine_ignored: "ignored l \<Longrightarrow> parseLine st l = st"
  by (auto simp: ignored_def parseLine_blank parseLine_comment)

lemma parseLines_ignored: "list_all ignored ls \<Longrightarrow> parseLines st ls = st"
  by (induction ls) (simp_all add: parseLines_Nil parseLines_Cons parseLine_ignored)

lemma tags_line_not_keyed: "HasPrefix (TrimSpace l) ''# Tags:'' \<Longrightarrow> keyOf l = None"
  using tags_is_comment by (simp add: keyOf_def)

subsection \<open>Lines and text\<close>

lemma Split_pieces: "l \<in> set (Split s sep) \<Longrightarrow> sep \<notin> set l"
  by (induction s arbitrary: l) (auto split: if_splits list.splits)

lemma Split_Join:
  "ls \<noteq> [] \<Longrightarrow> list_all (\<lambda>l. sep \<notin> set l) ls \<Longrightarrow> Split (Join ls [sep]) sep = ls"
proof (induction ls rule: induct_list012)
  case 1
  then show ?case by simp
next
  case (2 x)
  then show ?case by (simp add: Split_no_sep)
next
  case (3 x y zs)
  then show ?case by (simp add: Split_append_sep)
qed

lemma Join_snoc_Nil: "ls \<noteq> [] \<Longrightarrow> Join (ls @ [[]]) sep = concat (map (\<lambda>l. l @ sep) ls)"
  by (induction ls rule: induct_list012) simp_all

lemma addText_lines: "addText h = Join (addLines h @ [[]]) [CHR 0x0A]"
  by (subst Join_snoc_Nil) (simp_all add: addLines_def updateBlock_def addText_def)

subsection \<open>The scanner\<close>

lemma parseLines_dropCR: "parseLines st (map dropCR ls) = parseLines st ls"
  by (induction ls arbitrary: st) (simp_all add: parseLines_Nil parseLines_Cons parseLine_dropCR)

lemma parseLines_butlast:
  "ls \<noteq> [] \<Longrightarrow> last ls = [] \<Longrightarrow> parseLines st (butlast ls) = parseLines st ls"
proof -
  assume a: "ls \<noteq> []" "last ls = []"
  then have "ls = butlast ls @ [[]]" by (metis append_butlast_last_id)
  then have "parseLines st ls = parseLine (parseLines st (butlast ls)) []"
    by (metis parseLines_append parseLines_Cons parseLines_Nil)
  then show ?thesis by (simp add: parseLine_Nil)
qed

lemma ParseSSHConfigFile_lines:
  assumes "list_all (\<lambda>l. length l < MaxScanTokenSize) (Split content CHR 0x0A)"
  shows "ParseSSHConfigFile (Some content) =
     (finish (parseLines initState (Split content CHR 0x0A)), None)"
proof -
  define pieces where "pieces = Split content CHR 0x0A"
  define ls where "ls = (if last pieces = [] then butlast pieces else pieces)"
  have ne: "pieces \<noteq> []" by (simp add: pieces_def Split_not_Nil)
  have "set ls \<subseteq> set pieces" by (auto simp: ls_def dest: in_set_butlastD)
  with assms have "\<forall>l \<in> set ls. length l < MaxScanTokenSize"
    by (auto simp: list_all_iff pieces_def)
  then have tw: "takeWhile (\<lambda>l. length l < MaxScanTokenSize) ls = ls"
    by (simp add: takeWhile_eq_all_conv)
  have scan: "scanLines content = (map dropCR ls, None)"
    unfolding scanLines_def Let_def pieces_def [symmetric] ls_def [symmetric] tw by simp
  have "parseLines initState ls = parseLines initState pieces"
    using ne by (simp add: ls_def parseLines_butlast)
  then show ?thesis
    by (simp add: ParseSSHConfigFile_def scan parseLines_dropCR pieces_def)
qed

lemma ParseSSHConfigFile_Join:
  assumes "list_all scannable ls"
  shows "ParseSSHConfigFile (Some (Join ls [CHR 0x0A])) = (finish (parseLines initState ls), None)"
proof (cases "ls = []")
  case True
  have "list_all (\<lambda>l. length l < MaxScanTokenSize) (Split [] CHR 0x0A)"
    by (simp add: MaxScanTokenSize_def)
  then have "ParseSSHConfigFile (Some []) = (finish (parseLines initState (Split [] CHR 0x0A)), None)"
    by (rule ParseSSHConfigFile_lines)
  with True show ?thesis by (simp add: parseLines_Cons parseLines_Nil parseLine_Nil)
next
  case False
  from assms have "list_all (\<lambda>l. CHR 0x0A \<notin> set l) ls"
    by (simp add: list_all_iff scannable_def)
  with False have s: "Split (Join ls [CHR 0x0A]) CHR 0x0A = ls" by (rule Split_Join)
  from assms have "list_all (\<lambda>l. length l < MaxScanTokenSize) ls"
    by (simp add: list_all_iff scannable_def)
  then show ?thesis using ParseSSHConfigFile_lines [of "Join ls [CHR 0x0A]"] s by simp
qed

subsection \<open>The keys of the lines of an entry\<close>

lemma keyOf_fields:
  assumes "\<not> HasPrefix (trimLeft l) ''#''"
  shows "keyOf l = (case Fields l of k # v # vs \<Rightarrow> Some (ToLower k) | _ \<Rightarrow> None)"
proof -
  from assms have c: "\<not> HasPrefix (TrimSpace l) ''#''"
    using HasPrefix_TrimSpace by blast
  show ?thesis
    using c by (cases "Fields l" rule: remdups_adj.cases)
      (simp_all add: keyOf_def Let_def Fields_TrimSpace TrimSpace_Nil_iff)
qed

lemma keyOf_key_value:
  assumes "Fields l = k # Fields v" and "\<not> HasPrefix (trimLeft l) ''#''"
  shows "keyOf l = (if Fields v = [] then None else Some (ToLower k))"
  using assms by (cases "Fields v") (simp_all add: keyOf_fields)

lemma keyOf_rendered:
  "keyOf (''Host '' @ v) = (if Fields v = [] then None else Some ''host'')"
  "keyOf (''    HostName '' @ v) = (if Fields v = [] then None else Some ''hostname'')"
  "keyOf (''    User '' @ v) = (if Fields v = [] then None else Some ''user'')"
  "keyOf (''    Port '' @ v) = (if Fields v = [] then None else Some ''port'')"
  "keyOf (''    IdentityFile '' @ v) = (if Fields v = [] then None else Some ''identityfile'')"
  "keyOf (''    ProxyJump '' @ v) = (if Fields v = [] then None else Some ''proxyjump'')"
  unfolding ToLower_literal [symmetric]
  by (rule keyOf_key_value, simp only: Fields_Host Fields_literal,
      simp only: trimLeft_literal, simp add: HasPrefix_def)+

lemma keyOf_Tags: "keyOf (''# Tags: '' @ v) = None"
  by (rule tags_line_not_keyed) (rule HasPrefix_Tags_line)

lemma keyOf_Nil: "keyOf [] = None"
  by (simp add: keyOf_def TrimSpace_def trimRight_def)

lemma Split_addText:
  "list_all scannable (addLines h) \<Longrightarrow> Split (addText h) CHR 0x0A = addLines h @ [[]]"
  unfolding addText_lines by (rule Split_Join) (simp_all add: list_all_iff scannable_def)

section \<open>The loops as functions of the lines\<close>

lemma hostBranch_Fields:
  "HasPrefix (TrimSpace l) ''Host '' \<Longrightarrow>
     \<exists>f0 f1 fs. Fields (TrimSpace l) = f0 # f1 # fs \<and> (hostBranch name l \<longleftrightarrow> f1 = name)"
  using Host_line_two_fields [of l]
  by (cases "Fields (TrimSpace l)" rule: remdups_adj.cases) (auto simp: hostBranch_def)

lemma tagsBranch_Cons:
  "tagsBranch name (l # rest) \<longleftrightarrow>
     HasPrefix (TrimSpace l) ''# Tags:'' \<and> rest \<noteq> [] \<and> TrimSpace (hd rest) = ''Host '' @ name"
  by (cases rest) (simp_all add: tagsBranch_def)

lemma tags_not_Host: "HasPrefix s ''# Tags:'' \<Longrightarrow> \<not> HasPrefix s ''Host ''"
  by (auto simp: HasPrefix_def prefix_def)

lemma Fields_index_1:
  assumes "HasPrefix (TrimSpace l) ''Host ''"
  shows "(case Fields (TrimSpace l) of
            f0 # f1 # fs \<Rightarrow> if f1 = name then A else B
          | _ \<Rightarrow> Inl IndexOutOfRange) = (if hostBranch name l then A else B)"
  using hostBranch_Fields [OF assms, of name] by auto

lemma updateLoop_Cons:
  "updateLoop name h (l # rest) acc found =
     (if tagsBranch name (l # rest) then
        updateLoop name h (skipBlock (tl rest)) (acc @ updateBlock h) True
      else if hostBranch name l then updateLoop name h (skipBlock rest) (acc @ updateBlock h) True
      else updateLoop name h rest (acc @ [l]) found)"
proof (cases "HasPrefix (TrimSpace l) ''Host ''")
  case True
  then show ?thesis
    unfolding updateLoop.simps Let_def tagsBranch_Cons [symmetric]
    by (simp add: Fields_index_1)
next
  case False
  then have "\<not> hostBranch name l" by (simp add: hostBranch_def)
  with False show ?thesis
    unfolding updateLoop.simps Let_def tagsBranch_Cons [symmetric] by simp
qed

lemma deleteLoop_Cons:
  "deleteLoop name (l # rest) acc found =
     (if tagsBranch name (l # rest) then deleteLoop name (skipBlank (skipBlock (tl rest))) acc True
      else if hostBranch name l then deleteLoop name (skipBlank (skipBlock rest)) acc True
      else deleteLoop name rest (acc @ [l]) found)"
proof (cases "HasPrefix (TrimSpace l) ''Host ''")
  case True
  then show ?thesis
    unfolding deleteLoop.simps Let_def tagsBranch_Cons [symmetric]
    by (simp add: Fields_index_1)
next
  case False
  then have "\<not> hostBranch name l" by (simp add: hostBranch_def)
  with False show ?thesis
    unfolding deleteLoop.simps Let_def tagsBranch_Cons [symmetric] by simp
qed

lemma updateLoop_eq:
  "updateLoop name h ls acc found = Inr (acc @ updateLines name h ls, found \<or> \<not> noMatch name ls)"
proof (induction name h ls arbitrary: acc found rule: updateLines.induct)
  case (1 oldName newHost)
  show ?case by simp
next
  case (2 oldName newHost l rest)
  then show ?case
    unfolding updateLoop_Cons by (simp del: updateLoop.simps)
qed

lemma deleteLoop_eq:
  "deleteLoop name ls acc found = Inr (acc @ deleteLines name ls, found \<or> \<not> noMatch name ls)"
proof (induction name ls arbitrary: acc found rule: deleteLines.induct)
  case (1 hostName)
  show ?case by simp
next
  case (2 hostName l rest)
  then show ?case
    unfolding deleteLoop_Cons by (simp del: deleteLoop.simps)
qed

lemma UpdateSSHHost_eq:
  assumes "home fs" "config fs = Some content"
  shows "UpdateSSHHost name h fs =
     (if noMatch name (Split content CHR 0x0A) then (Some (NotFound name), fs\<lparr>backup := Some content\<rparr>)
      else (None, fs\<lparr>backup := Some content,
                     config := Some (Join (updateLines name h (Split content CHR 0x0A)) [CHR 0x0A])\<rparr>))"
  using assms by (simp add: UpdateSSHHost_def backupConfig_def updateLoop_eq)

lemma DeleteSSHHost_eq:
  assumes "home fs" "config fs = Some content"
  shows "DeleteSSHHost name fs =
     (if noMatch name (Split content CHR 0x0A) then (Some (NotFound name), fs\<lparr>backup := Some content\<rparr>)
      else (None, fs\<lparr>backup := Some content,
                     config := Some (Join (deleteLines name (Split content CHR 0x0A)) [CHR 0x0A])\<rparr>))"
  using assms by (simp add: DeleteSSHHost_def backupConfig_def deleteLoop_eq)

subsection \<open>The lines outside a block\<close>

lemma tagsBranch_two:
  "tagsBranch name (l # l' # rest) \<longleftrightarrow>
     HasPrefix (TrimSpace l) ''# Tags:'' \<and> TrimSpace l' = ''Host '' @ name"
  by (simp add: tagsBranch_def)

lemma tagsBranch_one: "\<not> tagsBranch name [l]"
  by (simp add: tagsBranch_def)

lemma hostBranch_not_tags: "hostBranch name l \<Longrightarrow> \<not> tagsBranch name (l # rest)"
  using tags_not_Host by (auto simp: hostBranch_def tagsBranch_Cons)

lemma tags_line_not_matched: "tagsBranch name (t # rest) \<Longrightarrow> \<not> tagsBranch name (l # t # rest')"
  by (auto simp: tagsBranch_def HasPrefix_def prefix_def split: list.splits)

lemma noMatch_append: "noMatch name (pre @ rest) \<Longrightarrow> noMatch name rest"
  by (induction pre) simp_all

lemma updateLines_pre:
  "noMatch name pre \<Longrightarrow> pre = [] \<or> \<not> tagsBranch name (last pre # rest) \<Longrightarrow>
     updateLines name h (pre @ rest) = pre @ updateLines name h rest"
proof (induction pre)
  case Nil
  show ?case by simp
next
  case (Cons l pre)
  show ?case
  proof (cases pre)
    case Nil
    with Cons.prems show ?thesis by simp
  next
    case (Cons l' pre')
    with Cons.prems have "\<not> tagsBranch name (l # pre @ rest)"
      by (simp add: tagsBranch_two)
    with Cons.prems Cons.IH Cons show ?thesis by simp
  qed
qed

lemma deleteLines_pre:
  "noMatch name pre \<Longrightarrow> pre = [] \<or> \<not> tagsBranch name (last pre # rest) \<Longrightarrow>
     deleteLines name (pre @ rest) = pre @ deleteLines name rest"
proof (induction pre)
  case Nil
  show ?case by simp
next
  case (Cons l pre)
  show ?case
  proof (cases pre)
    case Nil
    with Cons.prems show ?thesis by simp
  next
    case (Cons l' pre')
    with Cons.prems have "\<not> tagsBranch name (l # pre @ rest)"
      by (simp add: tagsBranch_two)
    with Cons.prems Cons.IH Cons show ?thesis by simp
  qed
qed

lemma updateLines_noMatch: "noMatch name ls \<Longrightarrow> updateLines name h ls = ls"
  using updateLines_pre [of name ls "[]" h] by (simp add: tagsBranch_one)

lemma deleteLines_noMatch: "noMatch name ls \<Longrightarrow> deleteLines name ls = ls"
  using deleteLines_pre [of name ls "[]"] by (simp add: tagsBranch_one)

lemma skipBlock_body: "list_all inBlock body \<Longrightarrow> blockEnd post \<Longrightarrow> skipBlock (body @ post) = post"
  by (cases post) (simp_all add: skipBlock_def blockEnd_def list_all_iff dropWhile_append3)

lemma blockOf_cases:
  assumes "blockOf name pre span"
  obtains (tagged) t l body where "span = t # l # body" "tagsBranch name [t, l]" "list_all inBlock body"
  | (bare) l body where "span = l # body" "hostBranch name l"
      "pre = [] \<or> \<not> tagsBranch name [last pre, l]" "list_all inBlock body"
proof (cases span)
  case Nil
  with assms show ?thesis by (simp add: blockOf_def)
next
  case (Cons l rest)
  show ?thesis
  proof (cases "HasPrefix (TrimSpace l) ''# Tags:''")
    case True
    with Cons assms obtain l' body where r: "rest = l' # body"
      by (cases rest) (auto simp: blockOf_def)
    with True Cons assms show ?thesis
      by (intro tagged [of l l' body]) (simp_all add: blockOf_def tagsBranch_two)
  next
    case False
    with Cons assms show ?thesis
      by (intro bare [of l rest]) (auto simp: blockOf_def tagsBranch_two)
  qed
qed

lemma updateLines_block:
  assumes "blockOf name pre span" and "blockEnd post"
  shows "updateLines name h (span @ post) = updateBlock h @ updateLines name h post"
  using assms(1)
proof (cases rule: blockOf_cases)
  case (tagged t l body)
  then show ?thesis using assms(2) by (simp add: tagsBranch_two skipBlock_body)
next
  case (bare l body)
  then show ?thesis using assms(2) hostBranch_not_tags by (simp add: skipBlock_body)
qed

lemma deleteLines_block:
  assumes "blockOf name pre span" and "blockEnd post"
  shows "deleteLines name (span @ post) = deleteLines name (skipBlank post)"
  using assms(1)
proof (cases rule: blockOf_cases)
  case (tagged t l body)
  then show ?thesis using assms(2) by (simp add: tagsBranch_two skipBlock_body)
next
  case (bare l body)
  then show ?thesis using assms(2) hostBranch_not_tags by (simp add: skipBlock_body)
qed

lemma blockOf_boundary:
  assumes "blockOf name pre span"
  shows "pre = [] \<or> \<not> tagsBranch name (last pre # span @ post)"
  using assms
proof (cases rule: blockOf_cases)
  case (tagged t l body)
  then show ?thesis using tags_line_not_matched [of name t "[l]"] by (simp add: tagsBranch_two)
next
  case (bare l body)
  then show ?thesis by (auto simp: tagsBranch_two)
qed

lemma blockOf_found:
  assumes "blockOf name pre span"
  shows "\<not> noMatch name (pre @ span @ post)"
proof
  assume "noMatch name (pre @ span @ post)"
  then have n: "noMatch name (span @ post)" by (rule noMatch_append)
  from assms show False
  proof (cases rule: blockOf_cases)
    case (tagged t l body)
    with n show ?thesis by (simp add: tagsBranch_two)
  next
    case (bare l body)
    with n show ?thesis by simp
  qed
qed

lemma noMatch_skipBlank: "noMatch name post \<Longrightarrow> noMatch name (skipBlank post)"
  by (cases post) (simp_all add: skipBlank_def)

lemma updateLines_frame:
  assumes "noMatch name pre" and "blockOf name pre span" and "blockEnd post" and "noMatch name post"
  shows "updateLines name h (pre @ span @ post) = pre @ updateBlock h @ post"
  using assms
  by (simp add: updateLines_pre blockOf_boundary updateLines_block updateLines_noMatch)

lemma deleteLines_frame:
  assumes "noMatch name pre" and "blockOf name pre span" and "blockEnd post" and "noMatch name post"
  shows "deleteLines name (pre @ span @ post) = pre @ skipBlank post"
  using assms
  by (simp add: deleteLines_pre blockOf_boundary deleteLines_block deleteLines_noMatch
      noMatch_skipBlank)

section \<open>The parser on the parts of a file\<close>

text \<open>The hosts closed so far are only appended to.\<close>

lemma directive_hosts_prefix:
  "directive k v (st\<lparr>hosts := hs @ hosts st\<rparr>) =
     (directive k v st)\<lparr>hosts := hs @ hosts (directive k v st)\<rparr>"
  by (cases st) (simp add: directive_def split: option.splits)

lemma parseLine_hosts_prefix:
  "parseLine (st\<lparr>hosts := hs @ hosts st\<rparr>) l = (parseLine st l)\<lparr>hosts := hs @ hosts (parseLine st l)\<rparr>"
  by (cases "keyOf l") (simp_all add: parseLine_keyOf directive_hosts_prefix)

lemma parseLines_hosts_prefix:
  "parseLines (st\<lparr>hosts := hs @ hosts st\<rparr>) ls =
     (parseLines st ls)\<lparr>hosts := hs @ hosts (parseLines st ls)\<rparr>"
proof (induction ls arbitrary: st)
  case Nil
  show ?case by (simp add: parseLines_Nil)
next
  case (Cons l ls)
  show ?case by (simp add: parseLines_Cons parseLine_hosts_prefix Cons.IH)
qed

lemma finish_pendingTags: "finish (st\<lparr>pendingTags := p\<rparr>) = finish st"
  by (cases "currentHost st") (simp_all add: finish_def)

lemma keyOf_blank: "TrimSpace l = [] \<Longrightarrow> keyOf l = None"
  by (simp add: keyOf_def)

lemma finish_hosts_prefix: "finish (st\<lparr>hosts := hs @ hosts st\<rparr>) = hs @ finish st"
  by (simp add: finish_def split: option.splits)

text \<open>The pending tags depend on the lines and on the tags pending before them only.\<close>

lemma pendingTags_directive:
  "pendingTags (directive k v st) = (if k = ''host'' then [] else pendingTags st)"
  by (simp add: directive_def)

lemma pendingTags_parseLine:
  "pendingTags st = pendingTags st' \<Longrightarrow> pendingTags (parseLine st l) = pendingTags (parseLine st' l)"
  by (cases "keyOf l") (simp_all add: parseLine_keyOf pendingTags_directive)

lemma pendingTags_parseLines:
  "pendingTags st = pendingTags st' \<Longrightarrow> pendingTags (parseLines st ls) = pendingTags (parseLines st' ls)"
proof (induction ls arbitrary: st st')
  case Nil
  then show ?case by (simp add: parseLines_Nil)
next
  case (Cons l ls)
  from Cons.prems have "pendingTags (parseLine st l) = pendingTags (parseLine st' l)"
    by (rule pendingTags_parseLine)
  then show ?case unfolding parseLines_Cons by (rule Cons.IH)
qed

text \<open>
  Lines that close the host under construction before they set a field are read the same
  after any lines that leave the same tags pending: their hosts follow the earlier ones.
\<close>

lemma finish_closesHost:
  assumes "closesHost ls"
  shows "finish (parseLines st ls) =
     finish st @ finish (parseLines \<lparr>hosts = [], currentHost = None, pendingTags = pendingTags st\<rparr> ls)"
  using assms
proof (induction ls arbitrary: st)
  case Nil
  show ?case by (simp add: parseLines_Nil finish_def)
next
  case (Cons l ls)
  let ?e = "\<lparr>hosts = [], currentHost = None, pendingTags = pendingTags st\<rparr>"
  show ?case
  proof (cases "keyOf l = Some ''host''")
    case True
    define v where "v = Join (tl (Fields l)) '' ''"
    define s0 where "s0 = directive ''host'' v ?e"
    have a: "parseLine ?e l = s0" using True by (simp add: parseLine_keyOf s0_def v_def)
    have "parseLine st l = s0\<lparr>hosts := finish st @ hosts s0\<rparr>"
      using True by (cases st) (simp add: parseLine_keyOf s0_def v_def directive_def finish_def)
    then have "parseLines st (l # ls) = (parseLines s0 ls)\<lparr>hosts := finish st @ hosts (parseLines s0 ls)\<rparr>"
      by (simp add: parseLines_Cons parseLines_hosts_prefix)
    then show ?thesis by (simp add: finish_hosts_prefix parseLines_Cons a)
  next
    case False
    with Cons.prems have c: "closesHost ls"
      and k: "keyOf l \<notin> Some ` {''hostname'', ''user'', ''port'', ''identityfile'', ''proxyjump''}"
      by (auto split: if_splits)
    define p where "p = pendingTags (parseLine st l)"
    have d: "directive k v s = s" if "keyOf l = Some k" for k v and s :: pstate
      using that False k by (auto simp: directive_def)
    have 1: "parseLine st l = st\<lparr>pendingTags := p\<rparr>"
      unfolding p_def by (cases "keyOf l") (auto simp: parseLine_keyOf d)
    have "pendingTags (parseLine ?e l) = p"
      unfolding p_def by (rule pendingTags_parseLine) simp
    then have 2: "parseLine ?e l = \<lparr>hosts = [], currentHost = None, pendingTags = p\<rparr>"
      by (cases "keyOf l") (auto simp: parseLine_keyOf d split: if_splits)
    have "finish (parseLines (st\<lparr>pendingTags := p\<rparr>) ls) =
        finish (st\<lparr>pendingTags := p\<rparr>) @
        finish (parseLines \<lparr>hosts = [], currentHost = None, pendingTags = pendingTags (st\<lparr>pendingTags := p\<rparr>)\<rparr> ls)"
      using c by (rule Cons.IH)
    then show ?thesis by (simp add: parseLines_Cons 1 2 finish_pendingTags)
  qed
qed

lemma closesHost_skipBlank: "closesHost post \<Longrightarrow> closesHost (skipBlank post)"
  by (cases post) (auto simp: skipBlank_def keyOf_blank split: if_splits)

lemma parseLines_skipBlank: "parseLines st (skipBlank post) = parseLines st post"
  by (cases post) (auto simp: skipBlank_def parseLines_Cons parseLine_blank)

lemma Host_line_keyOf:
  assumes "HasPrefix (TrimSpace l) ''Host ''"
  shows "keyOf l = Some ''host''"
proof -
  from assms obtain r where r: "TrimSpace l = ''Host '' @ r"
    by (auto simp: HasPrefix_def prefix_def)
  have f: "Fields (TrimSpace l) = ''Host'' # Fields r" unfolding r by (rule Fields_Host)
  have "2 \<le> length (Fields (TrimSpace l))" using assms by (rule Host_line_two_fields)
  with f obtain f1 fs where "Fields (TrimSpace l) = ''Host'' # f1 # fs"
    by (cases "Fields r") auto
  moreover have "TrimSpace l \<noteq> []" "\<not> HasPrefix (TrimSpace l) ''#''"
    unfolding r by (simp_all add: HasPrefix_def)
  ultimately show ?thesis by (simp add: keyOf_def Let_def lowerByte_def)
qed

lemma blockOf_closesHost:
  assumes "blockOf name pre span"
  shows "closesHost (span @ post)"
  using assms
proof (cases rule: blockOf_cases)
  case (tagged t l body)
  then have "keyOf t = None" "keyOf l = Some ''host''"
    using tags_line_not_keyed [of t] Host_line_keyOf [of l]
    by (simp_all add: tagsBranch_two HasPrefix_def)
  with tagged show ?thesis by simp
next
  case (bare l body)
  then have "keyOf l = Some ''host''" using Host_line_keyOf by (simp add: hostBranch_def)
  with bare show ?thesis by simp
qed

lemma scannable_pieces:
  assumes "list_all (\<lambda>l. length l < MaxScanTokenSize) ls" and "set ls \<subseteq> set (Split content sep)"
    and "sep = CHR 0x0A"
  shows "list_all scannable ls"
  using assms Split_pieces by (fastforce simp: list_all_iff scannable_def)

lemma set_skipBlank: "set (skipBlank post) \<subseteq> set post"
  by (cases post) (auto simp: skipBlank_def)

subsection \<open>The first host of a state\<close>

text \<open>
  Once a state has a first host, the lines read afterwards change neither its name nor its
  tags, and reading them commutes with setting its tags.
\<close>

lemma directive_mapFirst:
  assumes "firstHost st \<noteq> None"
  shows "directive k v (mapFirst (\<lambda>h. h\<lparr>Tags := t\<rparr>) st) = mapFirst (\<lambda>h. h\<lparr>Tags := t\<rparr>) (directive k v st)"
  using assms
  by (cases st; cases "hosts st"; cases "currentHost st")
     (simp_all add: directive_def mapFirst_def firstHost_def)

lemma parseLine_mapFirst:
  assumes "firstHost st \<noteq> None"
  shows "parseLine (mapFirst (\<lambda>h. h\<lparr>Tags := t\<rparr>) st) l = mapFirst (\<lambda>h. h\<lparr>Tags := t\<rparr>) (parseLine st l)"
proof (cases "keyOf l")
  case None
  have "pendingTags (mapFirst f st) = pendingTags st" for f
    by (simp add: mapFirst_def split: list.splits)
  moreover have "mapFirst f (st\<lparr>pendingTags := p\<rparr>) = (mapFirst f st)\<lparr>pendingTags := p\<rparr>" for f p
    by (simp add: mapFirst_def split: list.splits)
  ultimately show ?thesis using None by (simp add: parseLine_keyOf)
next
  case (Some k)
  then show ?thesis using assms by (simp add: parseLine_keyOf directive_mapFirst)
qed

lemma directive_firstHost:
  assumes "firstHost st = Some y"
  shows "\<exists>y'. firstHost (directive k v st) = Some y' \<and> Name y' = Name y \<and> Tags y' = Tags y"
  using assms
  by (cases st; cases "hosts st"; cases "currentHost st")
     (simp_all add: directive_def firstHost_def)

lemma parseLine_firstHost:
  assumes "firstHost st = Some y"
  shows "\<exists>y'. firstHost (parseLine st l) = Some y' \<and> Name y' = Name y \<and> Tags y' = Tags y"
proof (cases "keyOf l")
  case None
  have "firstHost (st\<lparr>pendingTags := p\<rparr>) = firstHost st" for p
    by (simp add: firstHost_def split: list.splits)
  then show ?thesis using None assms by (simp add: parseLine_keyOf)
next
  case (Some k)
  then show ?thesis using assms by (simp add: parseLine_keyOf directive_firstHost)
qed

lemma parseLines_firstHost:
  assumes "firstHost st = Some y"
  shows "\<exists>y'. firstHost (parseLines st ls) = Some y' \<and> Name y' = Name y \<and> Tags y' = Tags y"
  using assms
proof (induction ls arbitrary: st y)
  case Nil
  then show ?case by (simp add: parseLines_Nil)
next
  case (Cons l ls)
  from parseLine_firstHost [OF Cons.prems, of l] obtain y1
    where 1: "firstHost (parseLine st l) = Some y1" "Name y1 = Name y" "Tags y1 = Tags y" by blast
  from Cons.IH [OF 1(1)] 1 show ?case by (simp add: parseLines_Cons)
qed

lemma parseLines_mapFirst:
  assumes "firstHost st \<noteq> None"
  shows "parseLines (mapFirst (\<lambda>h. h\<lparr>Tags := t\<rparr>) st) ls = mapFirst (\<lambda>h. h\<lparr>Tags := t\<rparr>) (parseLines st ls)"
  using assms
proof (induction ls arbitrary: st)
  case Nil
  then show ?case by (simp add: parseLines_Nil)
next
  case (Cons l ls)
  from Cons.prems obtain y where "firstHost st = Some y" by auto
  from parseLine_firstHost [OF this, of l] have "firstHost (parseLine st l) \<noteq> None" by auto
  then show ?case using Cons.prems by (simp add: parseLines_Cons parseLine_mapFirst Cons.IH)
qed

lemma finish_firstHost:
  assumes "firstHost st = Some y"
  shows "finish st = y # tl (finish st) \<and> finish (mapFirst f st) = f y # tl (finish st)"
  using assms
  by (cases "hosts st"; cases "currentHost st")
     (simp_all add: finish_def firstHost_def mapFirst_def)

lemma finish_parseLines_hosts:
  "finish (parseLines \<lparr>hosts = H, currentHost = c, pendingTags = p\<rparr> ls) =
     H @ finish (parseLines \<lparr>hosts = [], currentHost = c, pendingTags = p\<rparr> ls)"
  using parseLines_hosts_prefix [where st = "\<lparr>hosts = [], currentHost = c, pendingTags = p\<rparr>"
      and hs = H and ls = ls]
    finish_hosts_prefix [where st = "parseLines \<lparr>hosts = [], currentHost = c, pendingTags = p\<rparr> ls"
      and hs = H]
  by simp

subsection \<open>The lines update writes, and files with a long line\<close>

lemma keyOf_updateBlock: "list_all (\<lambda>l. keyOf l \<noteq> Some ''proxyjump'') (updateBlock h)"
  by (simp add: updateBlock_def keyOf_rendered [simplified] keyOf_Tags [simplified] keyOf_Nil)

lemma Split_long_line:
  "CHR 0x0A \<notin> set a \<Longrightarrow> c \<noteq> CHR 0x0A \<Longrightarrow>
     Split (a @ CHR 0x0A # replicate n c) CHR 0x0A = [a, replicate n c]"
  by (simp add: Split_append_sep Split_no_sep)

lemma Split_long_gap:
  "CHR 0x0A \<notin> set a \<Longrightarrow> c \<noteq> CHR 0x0A \<Longrightarrow>
     Split (a @ CHR 0x0A # replicate n c @ CHR 0x0A # b) CHR 0x0A =
       a # replicate n c # Split b CHR 0x0A"
  by (simp add: Split_append_sep)

section \<open>Evaluation\<close>

text \<open>The definitions to unfold when a function is run on a concrete input.\<close>

lemmas string_eval =
  TrimSpace_def trimRight_def spaceLen_def spaceLenRev_def spaceEncodings_def HasPrefix_def
  TrimPrefix_def Fields_def lowerByte_def

lemmas locator_eval = tagsBranch_def hostBranch_def inBlock_def skipBlock_def skipBlank_def

lemmas parser_eval =
  ParseSSHConfigFile_def scanLines_def MaxScanTokenSize_def dropCR_def parseLines_def
  parseLine_def directive_def initState_def addTags_def initHost_def finish_def

section \<open>Claims\<close>

text \<open>
  C1, as amended. For an entry with the port empty or 22 whose name has a field and
  whose lines are lines for the scanner (no line feed in a value, none of 64 KiB), the text
  create writes parses to one entry, with the port 22, and none of its lines is a port
  directive. The Port line is the text between two parts that do not depend on the port,
  and it is there exactly when the port is neither empty nor 22.
\<close>

theorem default_port_round_trip:
  assumes "Port h = [] \<or> Port h = ''22''"
    and "Fields (Name h) \<noteq> []"
    and "list_all scannable (addLines h)"
  shows "ParseSSHConfigFile (Some (addText h)) = ([readBack h []], None)
       \<and> Port (readBack h []) = ''22''
       \<and> list_all (\<lambda>l. keyOf l \<noteq> Some ''port'') (Split (addText h) CHR 0x0A)
       \<and> (\<exists>a b. \<forall>p. addText (h\<lparr>Port := p\<rparr>) =
             a @ (if p \<noteq> [] \<and> p \<noteq> ''22'' then ''    Port '' @ p @ [CHR 0x0A] else []) @ b)"
proof -
  have "list_all scannable (addLines h @ [[]])"
    using assms(3) by (simp add: scannable_def MaxScanTokenSize_def)
  then have "ParseSSHConfigFile (Some (addText h)) =
      (finish (parseLines initState (addLines h @ [[]])), None)"
    unfolding addText_lines by (rule ParseSSHConfigFile_Join)
  then have parse: "ParseSSHConfigFile (Some (addText h)) = ([readBack h []], None)"
    using assms(2)
    by (simp add: parseLines_append parseLines_addLines parseLines_Cons parseLines_Nil
        parseLine_Nil finish_def initState_def)
  have port: "Port (readBack h []) = ''22''"
    using assms(1) by (auto simp: readBack_def Fields_Nil readField_22)
  have "list_all (\<lambda>l. keyOf l \<noteq> Some ''port'') (addLines h @ [[]])"
    using assms(1)
    by (auto simp: addLines_def updateBlock_def keyOf_rendered [simplified] keyOf_Tags [simplified]
        keyOf_Nil)
  then have lines: "list_all (\<lambda>l. keyOf l \<noteq> Some ''port'') (Split (addText h) CHR 0x0A)"
    using assms(3) by (simp add: Split_addText)
  have "\<forall>p. addText (h\<lparr>Port := p\<rparr>) =
      ([CHR 0x0A]
       @ (if length (Tags h) > 0 then ''# Tags: '' @ Join (Tags h) '', '' @ [CHR 0x0A] else [])
       @ ''Host '' @ Name h @ [CHR 0x0A]
       @ ''    HostName '' @ Hostname h @ [CHR 0x0A]
       @ (if User h \<noteq> [] then ''    User '' @ User h @ [CHR 0x0A] else []))
      @ (if p \<noteq> [] \<and> p \<noteq> ''22'' then ''    Port '' @ p @ [CHR 0x0A] else [])
      @ ((if Identity h \<noteq> [] then ''    IdentityFile '' @ Identity h @ [CHR 0x0A] else [])
         @ (if ProxyJump h \<noteq> [] then ''    ProxyJump '' @ ProxyJump h @ [CHR 0x0A] else []))"
    by (simp add: addText_def)
  then have "\<exists>a b. \<forall>p. addText (h\<lparr>Port := p\<rparr>) =
             a @ (if p \<noteq> [] \<and> p \<noteq> ''22'' then ''    Port '' @ p @ [CHR 0x0A] else []) @ b"
    by blast
  with parse port lines show ?thesis by blast
qed

theorem default_port_round_trip_witness:
  "Port \<lparr>Name = ''b'', Hostname = ''5.6.7.8'', User = ''root'', Port = ''22'', Identity = [],
      ProxyJump = [], Tags = [''prod'']\<rparr> = ''22''
   \<and> addText \<lparr>Name = ''b'', Hostname = ''5.6.7.8'', User = ''root'', Port = ''22'', Identity = [],
      ProxyJump = [], Tags = [''prod'']\<rparr>
     = ''\<newline># Tags: prod\<newline>Host b\<newline>    HostName 5.6.7.8\<newline>    User root\<newline>''
   \<and> ParseSSHConfigFile (Some ''\<newline># Tags: prod\<newline>Host b\<newline>    HostName 5.6.7.8\<newline>    User root\<newline>'')
     = ([\<lparr>Name = ''b'', Hostname = ''5.6.7.8'', User = ''root'', Port = ''22'', Identity = [],
          ProxyJump = [], Tags = [''prod'']\<rparr>], None)"
proof -
  define h where "h = \<lparr>Name = ''b'', Hostname = ''5.6.7.8'', User = ''root'', Port = ''22'',
      Identity = [], ProxyJump = [], Tags = [''prod'']\<rparr>"
  have a: "Port h = [] \<or> Port h = ''22''" by (simp add: h_def)
  have b: "Fields (Name h) \<noteq> []" by (simp add: h_def string_eval)
  have c: "list_all scannable (addLines h)"
    by (simp add: h_def addLines_def updateBlock_def scannable_def MaxScanTokenSize_def)
  have t: "addText h = ''\<newline># Tags: prod\<newline>Host b\<newline>    HostName 5.6.7.8\<newline>    User root\<newline>''"
    by (simp add: h_def addText_def)
  have r: "readBack h [] = h"
    by (simp add: h_def readBack_def readField_def addTags_def string_eval)
  show ?thesis
    using default_port_round_trip [OF a b c] a t r unfolding h_def by simp
qed

theorem default_port_counterexample:
  "addText \<lparr>Name = ''web'', Hostname = ''h\<newline>    Port 2222'', User = [], Port = [], Identity = [],
      ProxyJump = [], Tags = []\<rparr>
     = ''\<newline>Host web\<newline>    HostName h\<newline>    Port 2222\<newline>''
   \<and> ParseSSHConfigFile (Some ''\<newline>Host web\<newline>    HostName h\<newline>    Port 2222\<newline>'')
     = ([\<lparr>Name = ''web'', Hostname = ''h'', User = [], Port = ''2222'', Identity = [],
          ProxyJump = [], Tags = []\<rparr>], None)"
  by (simp add: addText_def parser_eval string_eval)

text \<open>
  C2, as amended. In a file whose lines are all shorter than the scanner's buffer, a tags
  line is followed by blank lines and comments that are not tags lines, then by a Host
  line, and no tags are pending when the tags line is read. Then the parser returns without
  error; the entry of that Host line has exactly the tags of the line, in their order; the
  entries before it are those of the lines before the tags line; and the same file without
  the tags line parses to the same entries, except that this entry has no tags: no other
  entry receives them. The tags are pending up to the Host line and none is pending after it.
\<close>

theorem tags_attach_to_next_host:
  assumes "Split content CHR 0x0A = pre @ tagsLine # gap @ hostLine # post"
    and "list_all (\<lambda>l. length l < MaxScanTokenSize) (Split content CHR 0x0A)"
    and "pendingTags (parseLines initState pre) = []"
    and "TrimSpace tagsLine = ''# Tags: '' @ Join ts '', ''" and "list_all cleanTag ts"
    and "list_all ignored gap"
    and "keyOf hostLine = Some ''host''"
  shows "\<exists>x hs.
       ParseSSHConfigFile (Some content) = (finish (parseLines initState pre) @ x # hs, None)
     \<and> Name x = Join (tl (Fields hostLine)) '' '' \<and> Tags x = ts
     \<and> ParseSSHConfigFile (Some (Join (pre @ gap @ hostLine # post) [CHR 0x0A])) =
         (finish (parseLines initState pre) @ x\<lparr>Tags := []\<rparr> # hs, None)
     \<and> pendingTags (parseLines initState (pre @ tagsLine # gap)) = ts
     \<and> pendingTags (parseLines initState (pre @ tagsLine # gap @ [hostLine])) = []"
proof -
  define s1 where "s1 = parseLines initState pre"
  define n where "n = Join (tl (Fields hostLine)) '' ''"
  define S where "S = \<lparr>hosts = [], currentHost = Some (initHost n ts), pendingTags = []\<rparr>"
  define S0 where "S0 = \<lparr>hosts = [], currentHost = Some (initHost n []), pendingTags = []\<rparr>"
  have p1: "pendingTags s1 = []" using assms(3) by (simp add: s1_def)
  have ne: "ts \<noteq> []"
  proof
    assume "ts = []"
    with assms(4) have "spaceLenRev (rev (TrimSpace tagsLine)) = 1"
      by (simp add: spaceLenRev_def spaceEncodings_def)
    then show False by (simp add: spaceLenRev_TrimSpace)
  qed
  have pre: "HasPrefix (TrimSpace tagsLine) ''# Tags:''"
    unfolding assms(4) by (simp add: HasPrefix_def)
  have "TrimSpace (''# Tags: '' @ Join ts '', '') = TrimSpace tagsLine"
    unfolding assms(4) [symmetric] by (rule TrimSpace_idem)
  then have "addTags [] (TrimSpace tagsLine) = ts"
    using addTags_Join [OF assms(5) ne, of "[]"] by simp
  with pre p1 have "parseLine s1 tagsLine = s1\<lparr>pendingTags := ts\<rparr>"
    by (simp add: parseLine_tags)
  then have g: "parseLines s1 (tagsLine # gap) = s1\<lparr>pendingTags := ts\<rparr>"
    using assms(6) by (simp add: parseLines_Cons parseLines_ignored)
  have g0: "parseLines s1 gap = s1" using assms(6) by (rule parseLines_ignored)
  have h1: "parseLine (s1\<lparr>pendingTags := ts\<rparr>) hostLine =
      \<lparr>hosts = finish s1, currentHost = Some (initHost n ts), pendingTags = []\<rparr>"
    using assms(7) by (cases s1) (simp add: parseLine_keyOf directive_def finish_def n_def split: option.splits)
  have h0: "parseLine s1 hostLine =
      \<lparr>hosts = finish s1, currentHost = Some (initHost n []), pendingTags = []\<rparr>"
    using assms(7) p1
    by (cases s1) (simp add: parseLine_keyOf directive_def finish_def n_def split: option.splits)
  have "parseLines initState (pre @ (tagsLine # gap) @ hostLine # post) =
      parseLines (parseLine (parseLines s1 (tagsLine # gap)) hostLine) post"
    by (simp only: parseLines_append s1_def parseLines_Cons [of _ hostLine])
  then have "finish (parseLines initState (pre @ tagsLine # gap @ hostLine # post)) =
      finish (parseLines \<lparr>hosts = finish s1, currentHost = Some (initHost n ts), pendingTags = []\<rparr> post)"
    unfolding g h1 by simp
  then have l1: "finish (parseLines initState (pre @ tagsLine # gap @ hostLine # post)) =
      finish s1 @ finish (parseLines S post)"
    unfolding S_def by (simp only: finish_parseLines_hosts [of "finish s1"])
  have "parseLines initState (pre @ gap @ hostLine # post) =
      parseLines (parseLine (parseLines s1 gap) hostLine) post"
    by (simp only: parseLines_append s1_def parseLines_Cons [of _ hostLine])
  then have "finish (parseLines initState (pre @ gap @ hostLine # post)) =
      finish (parseLines \<lparr>hosts = finish s1, currentHost = Some (initHost n []), pendingTags = []\<rparr> post)"
    unfolding g0 h0 by simp
  then have l0: "finish (parseLines initState (pre @ gap @ hostLine # post)) =
      finish s1 @ finish (parseLines S0 post)"
    unfolding S0_def by (simp only: finish_parseLines_hosts [of "finish s1"])
  have fS: "firstHost S = Some (initHost n ts)" by (simp add: S_def firstHost_def)
  from parseLines_firstHost [OF fS, of post] obtain x
    where x: "firstHost (parseLines S post) = Some x" "Name x = n" "Tags x = ts"
    by (auto simp: initHost_def)
  define hs where "hs = tl (finish (parseLines S post))"
  have m: "mapFirst (\<lambda>h. h\<lparr>Tags := []\<rparr>) S = S0"
    by (simp add: S_def S0_def mapFirst_def initHost_def)
  have "parseLines S0 post = mapFirst (\<lambda>h. h\<lparr>Tags := []\<rparr>) (parseLines S post)"
    unfolding m [symmetric] using fS by (intro parseLines_mapFirst) simp
  then have f: "finish (parseLines S post) = x # hs" "finish (parseLines S0 post) = x\<lparr>Tags := []\<rparr> # hs"
    using finish_firstHost [OF x(1), of "\<lambda>h. h\<lparr>Tags := []\<rparr>"] by (simp_all add: hs_def)
  have a: "ParseSSHConfigFile (Some content) = (finish s1 @ x # hs, None)"
    using ParseSSHConfigFile_lines [OF assms(2)] l1 f(1) by (simp add: assms(1))
  have "list_all (\<lambda>l. length l < MaxScanTokenSize) (pre @ gap @ hostLine # post)"
    using assms(2) by (simp add: assms(1))
  then have "list_all scannable (pre @ gap @ hostLine # post)"
    by (rule scannable_pieces [where content = content]) (auto simp: assms(1))
  from ParseSSHConfigFile_Join [OF this]
  have b: "ParseSSHConfigFile (Some (Join (pre @ gap @ hostLine # post) [CHR 0x0A])) =
      (finish s1 @ x\<lparr>Tags := []\<rparr> # hs, None)"
    using l0 f(2) by simp
  have "parseLines initState (pre @ (tagsLine # gap)) = parseLines s1 (tagsLine # gap)"
    by (simp only: parseLines_append s1_def)
  then have c: "pendingTags (parseLines initState (pre @ tagsLine # gap)) = ts"
    unfolding g by simp
  have "parseLines initState (pre @ (tagsLine # gap) @ [hostLine]) =
      parseLine (parseLines s1 (tagsLine # gap)) hostLine"
    by (simp only: parseLines_append s1_def parseLines_Cons [of _ hostLine] parseLines_Nil)
  then have d: "pendingTags (parseLines initState (pre @ tagsLine # gap @ [hostLine])) = []"
    unfolding g h1 by simp
  from a b c d x(2,3) show ?thesis unfolding s1_def n_def by blast
qed

theorem tags_attach_to_next_host_witness:
  "Split ''Host a\<newline>  # Tags: a, b\<newline>\<newline># a comment\<newline>Host x\<newline>    HostName h\<newline>Host y\<newline>'' CHR 0x0A
     = [''Host a''] @ ''  # Tags: a, b'' # ['''', ''# a comment''] @ ''Host x'' #
       [''    HostName h'', ''Host y'', '''']
   \<and> pendingTags (parseLines initState [''Host a'']) = []
   \<and> TrimSpace ''  # Tags: a, b'' = ''# Tags: '' @ Join [''a'', ''b''] '', ''
   \<and> list_all cleanTag [''a'', ''b'']
   \<and> list_all ignored ['''', ''# a comment'']
   \<and> keyOf ''Host x'' = Some ''host''
   \<and> ParseSSHConfigFile (Some ''Host a\<newline>  # Tags: a, b\<newline>\<newline># a comment\<newline>Host x\<newline>    HostName h\<newline>Host y\<newline>'')
     = ([\<lparr>Name = ''a'', Hostname = [], User = [], Port = ''22'', Identity = [],
          ProxyJump = [], Tags = []\<rparr>,
         \<lparr>Name = ''x'', Hostname = ''h'', User = [], Port = ''22'', Identity = [],
          ProxyJump = [], Tags = [''a'', ''b'']\<rparr>,
         \<lparr>Name = ''y'', Hostname = [], User = [], Port = ''22'', Identity = [],
          ProxyJump = [], Tags = []\<rparr>], None)
   \<and> ParseSSHConfigFile (Some ''Host a\<newline>\<newline># a comment\<newline>Host x\<newline>    HostName h\<newline>Host y\<newline>'')
     = ([\<lparr>Name = ''a'', Hostname = [], User = [], Port = ''22'', Identity = [],
          ProxyJump = [], Tags = []\<rparr>,
         \<lparr>Name = ''x'', Hostname = ''h'', User = [], Port = ''22'', Identity = [],
          ProxyJump = [], Tags = []\<rparr>,
         \<lparr>Name = ''y'', Hostname = [], User = [], Port = ''22'', Identity = [],
          ProxyJump = [], Tags = []\<rparr>], None)"
proof -
  define content where "content = ''Host a\<newline>  # Tags: a, b\<newline>\<newline># a comment\<newline>Host x\<newline>    HostName h\<newline>Host y\<newline>''"
  define pre where "pre = [''Host a'']"
  define gap where "gap = ['''', ''# a comment'']"
  define post where "post = [''    HostName h'', ''Host y'', '''']"
  have 1: "Split content CHR 0x0A = pre @ ''  # Tags: a, b'' # gap @ ''Host x'' # post"
    by (simp add: content_def pre_def gap_def post_def)
  have 2: "list_all (\<lambda>l. length l < MaxScanTokenSize) (Split content CHR 0x0A)"
    unfolding 1 by (simp add: pre_def gap_def post_def MaxScanTokenSize_def)
  have p: "parseLines initState pre =
      \<lparr>hosts = [], currentHost = Some \<lparr>Name = ''a'', Hostname = [], User = [], Port = ''22'',
         Identity = [], ProxyJump = [], Tags = []\<rparr>, pendingTags = []\<rparr>"
    by (simp add: pre_def parser_eval string_eval)
  have 3: "pendingTags (parseLines initState pre) = []" by (simp add: p)
  have 4: "TrimSpace ''  # Tags: a, b'' = ''# Tags: '' @ Join [''a'', ''b''] '', ''"
    and 5: "list_all cleanTag [''a'', ''b'']"
    and 6: "list_all ignored gap"
    and 7: "keyOf ''Host x'' = Some ''host''"
    by (simp_all add: gap_def cleanTag_def ignored_def keyOf_def string_eval)
  have j: "Join (pre @ gap @ ''Host x'' # post) [CHR 0x0A] =
      ''Host a\<newline>\<newline># a comment\<newline>Host x\<newline>    HostName h\<newline>Host y\<newline>''"
    by (simp add: pre_def gap_def post_def)
  have c: "ParseSSHConfigFile (Some content)
     = ([\<lparr>Name = ''a'', Hostname = [], User = [], Port = ''22'', Identity = [],
          ProxyJump = [], Tags = []\<rparr>,
         \<lparr>Name = ''x'', Hostname = ''h'', User = [], Port = ''22'', Identity = [],
          ProxyJump = [], Tags = [''a'', ''b'']\<rparr>,
         \<lparr>Name = ''y'', Hostname = [], User = [], Port = ''22'', Identity = [],
          ProxyJump = [], Tags = []\<rparr>], None)"
    by (simp add: content_def parser_eval string_eval)
  from tags_attach_to_next_host [OF 1 2 3 4 5 6 7] obtain x hs where
    a: "ParseSSHConfigFile (Some content) = (finish (parseLines initState pre) @ x # hs, None)"
    and b: "ParseSSHConfigFile (Some (Join (pre @ gap @ ''Host x'' # post) [CHR 0x0A])) =
         (finish (parseLines initState pre) @ x\<lparr>Tags := []\<rparr> # hs, None)"
    by blast
  from a c have "x = \<lparr>Name = ''x'', Hostname = ''h'', User = [], Port = ''22'', Identity = [],
          ProxyJump = [], Tags = [''a'', ''b'']\<rparr>"
    and "hs = [\<lparr>Name = ''y'', Hostname = [], User = [], Port = ''22'', Identity = [],
          ProxyJump = [], Tags = []\<rparr>]"
    by (simp_all add: p finish_def)
  with b have d: "ParseSSHConfigFile (Some ''Host a\<newline>\<newline># a comment\<newline>Host x\<newline>    HostName h\<newline>Host y\<newline>'')
     = ([\<lparr>Name = ''a'', Hostname = [], User = [], Port = ''22'', Identity = [],
          ProxyJump = [], Tags = []\<rparr>,
         \<lparr>Name = ''x'', Hostname = ''h'', User = [], Port = ''22'', Identity = [],
          ProxyJump = [], Tags = []\<rparr>,
         \<lparr>Name = ''y'', Hostname = [], User = [], Port = ''22'', Identity = [],
          ProxyJump = [], Tags = []\<rparr>], None)"
    unfolding j by (simp add: p finish_def)
  show ?thesis
    using 1 3 4 5 6 7 c d unfolding content_def pre_def gap_def post_def by simp
qed

theorem tags_accumulate_counterexample:
  "ParseSSHConfigFile (Some ''# Tags: old\<newline># Tags: a, b\<newline>Host x\<newline>    HostName h\<newline>'')
     = ([\<lparr>Name = ''x'', Hostname = ''h'', User = [], Port = ''22'', Identity = [],
          ProxyJump = [], Tags = [''old'', ''a'', ''b'']\<rparr>], None)
   \<and> ParseSSHConfigFile
        (Some (''# Tags: a, b'' @ CHR 0x0A # replicate 65536 CHR ''#'' @ CHR 0x0A # ''Host x''))
     = ([], Some ErrTooLong)"
proof -
  have s: "Split (''# Tags: a, b'' @ CHR 0x0A # replicate 65536 CHR ''#'' @ CHR 0x0A # ''Host x'')
        CHR 0x0A = [''# Tags: a, b'', replicate 65536 CHR ''#'', ''Host x'']"
    by (subst Split_long_gap) simp_all
  have r: "replicate 65536 CHR ''#'' \<noteq> []" "length (replicate 65536 CHR ''#'') = 65536"
    by simp_all
  have "scanLines (''# Tags: a, b'' @ CHR 0x0A # replicate 65536 CHR ''#'' @ CHR 0x0A # ''Host x'') =
      ([''# Tags: a, b''], Some ErrTooLong)"
    unfolding scanLines_def s Let_def by (simp add: r MaxScanTokenSize_def dropCR_def)
  then have "ParseSSHConfigFile
        (Some (''# Tags: a, b'' @ CHR 0x0A # replicate 65536 CHR ''#'' @ CHR 0x0A # ''Host x''))
     = ([], Some ErrTooLong)"
    unfolding ParseSSHConfigFile_def
    by (simp add: parseLines_def parseLine_def initState_def addTags_def finish_def string_eval)
  then show ?thesis by (simp add: parser_eval string_eval)
qed

text \<open>
  C3, as amended. The name of the entry is the name of a host that the parser reads from the
  config file. Then create leaves the config file as it is (the backup file has been
  written). It fails with \<open>AlreadyExists\<close> when the parser reads the file without error,
  as it does when every line is shorter than the scanner's buffer, and with the error of the
  scanner otherwise.
\<close>

theorem add_existing_name:
  assumes "home fs" and "config fs = Some content"
    and "ParseSSHConfigFile (Some content) = (hs, err)"
    and "Name host \<in> set (map Name hs)"
  shows "AddSSHHost host fs =
           (Some (case err of None \<Rightarrow> AlreadyExists (Name host) | Some e \<Rightarrow> e),
            fs\<lparr>backup := Some content\<rparr>)
       \<and> config (snd (AddSSHHost host fs)) = Some content
       \<and> (list_all (\<lambda>l. length l < MaxScanTokenSize) (Split content CHR 0x0A) \<longrightarrow> err = None)"
proof -
  have "AddSSHHost host fs =
           (Some (case err of None \<Rightarrow> AlreadyExists (Name host) | Some e \<Rightarrow> e),
            fs\<lparr>backup := Some content\<rparr>)"
    using assms
    by (cases err) (simp_all add: AddSSHHost_def HostExists_def ParseSSHConfig_def backupConfig_def)
  moreover have "err = None" if "list_all (\<lambda>l. length l < MaxScanTokenSize) (Split content CHR 0x0A)"
    using ParseSSHConfigFile_lines [OF that] assms(3) by simp
  ultimately show ?thesis using assms(2) by simp
qed

theorem add_existing_name_witness:
  "ParseSSHConfigFile (Some ''Host web\<newline>    HostName 10.0.0.1\<newline>'')
     = ([\<lparr>Name = ''web'', Hostname = ''10.0.0.1'', User = [], Port = ''22'', Identity = [],
          ProxyJump = [], Tags = []\<rparr>], None)
   \<and> list_all (\<lambda>l. length l < MaxScanTokenSize) (Split ''Host web\<newline>    HostName 10.0.0.1\<newline>'' CHR 0x0A)
   \<and> AddSSHHost \<lparr>Name = ''web'', Hostname = ''10.0.0.2'', User = [], Port = [], Identity = [],
        ProxyJump = [], Tags = []\<rparr>
        \<lparr>home = True, config = Some ''Host web\<newline>    HostName 10.0.0.1\<newline>'', backup = None\<rparr>
     = (Some (AlreadyExists ''web''),
        \<lparr>home = True, config = Some ''Host web\<newline>    HostName 10.0.0.1\<newline>'',
         backup = Some ''Host web\<newline>    HostName 10.0.0.1\<newline>''\<rparr>)"
proof -
  have p: "ParseSSHConfigFile (Some ''Host web\<newline>    HostName 10.0.0.1\<newline>'')
     = ([\<lparr>Name = ''web'', Hostname = ''10.0.0.1'', User = [], Port = ''22'', Identity = [],
          ProxyJump = [], Tags = []\<rparr>], None)"
    by (simp add: parser_eval string_eval)
  have s: "list_all (\<lambda>l. length l < MaxScanTokenSize) (Split ''Host web\<newline>    HostName 10.0.0.1\<newline>'' CHR 0x0A)"
    by (simp add: MaxScanTokenSize_def)
  show ?thesis
    using p s add_existing_name [OF _ _ p, of
      "\<lparr>home = True, config = Some ''Host web\<newline>    HostName 10.0.0.1\<newline>'', backup = None\<rparr>"
      "\<lparr>Name = ''web'', Hostname = ''10.0.0.2'', User = [], Port = [], Identity = [],
        ProxyJump = [], Tags = []\<rparr>"]
    by simp
qed

theorem add_long_line_counterexample:
  "ParseSSHConfigFile (Some (''Host web'' @ CHR 0x0A # replicate 65536 CHR ''#''))
     = ([\<lparr>Name = ''web'', Hostname = [], User = [], Port = ''22'', Identity = [],
          ProxyJump = [], Tags = []\<rparr>], Some ErrTooLong)
   \<and> AddSSHHost \<lparr>Name = ''web'', Hostname = ''10.0.0.2'', User = [], Port = [], Identity = [],
        ProxyJump = [], Tags = []\<rparr>
        \<lparr>home = True, config = Some (''Host web'' @ CHR 0x0A # replicate 65536 CHR ''#''),
         backup = None\<rparr>
     = (Some ErrTooLong,
        \<lparr>home = True, config = Some (''Host web'' @ CHR 0x0A # replicate 65536 CHR ''#''),
         backup = Some (''Host web'' @ CHR 0x0A # replicate 65536 CHR ''#'')\<rparr>)"
proof -
  have s: "Split (''Host web'' @ CHR 0x0A # replicate 65536 CHR ''#'') CHR 0x0A =
      [''Host web'', replicate 65536 CHR ''#'']"
    by (rule Split_long_line) simp_all
  have r: "replicate 65536 CHR ''#'' \<noteq> []" "length (replicate 65536 CHR ''#'') = 65536"
    by (simp_all)
  have "scanLines (''Host web'' @ CHR 0x0A # replicate 65536 CHR ''#'') =
      ([''Host web''], Some ErrTooLong)"
    unfolding scanLines_def s Let_def
    by (simp add: r MaxScanTokenSize_def dropCR_def)
  then have p: "ParseSSHConfigFile (Some (''Host web'' @ CHR 0x0A # replicate 65536 CHR ''#''))
     = ([\<lparr>Name = ''web'', Hostname = [], User = [], Port = ''22'', Identity = [],
          ProxyJump = [], Tags = []\<rparr>], Some ErrTooLong)"
    unfolding ParseSSHConfigFile_def
    by (simp add: parseLines_def parseLine_def directive_def initState_def addTags_def
        initHost_def finish_def string_eval)
  show ?thesis
    unfolding AddSSHHost_def HostExists_def ParseSSHConfig_def backupConfig_def
    by (simp add: p [simplified])
qed




text \<open>
  C5, as amended. For an entry with a ProxyJump, update does what it does for the entry
  without it. When update finds the block of the name and no line of the entry holds a line
  feed, the lines of the file it writes are \<open>pre\<close>, the lines of the entry and \<open>post\<close>, and
  none of the lines of the entry is one that the parser reads as a ProxyJump directive.
  Create, when the config file parses without error to hosts of other names, appends the
  text it appends for the entry without its ProxyJump, followed by the ProxyJump line.
\<close>

theorem update_omits_ProxyJump:
  assumes "ProxyJump h \<noteq> []"
  shows "UpdateSSHHost name h fs = UpdateSSHHost name (h\<lparr>ProxyJump := []\<rparr>) fs
       \<and> (home fs \<and> config fs = Some content \<and> Split content CHR 0x0A = pre @ span @ post
            \<and> noMatch name pre \<and> blockOf name pre span \<and> blockEnd post \<and> noMatch name post
            \<and> list_all (\<lambda>l. CHR 0x0A \<notin> set l) (updateBlock h)
          \<longrightarrow> (\<exists>new. UpdateSSHHost name h fs =
                        (None, fs\<lparr>backup := Some content, config := Some new\<rparr>)
                  \<and> Split new CHR 0x0A = pre @ updateBlock h @ post
                  \<and> list_all (\<lambda>l. keyOf l \<noteq> Some ''proxyjump'') (updateBlock h)))
       \<and> (home fs' \<and> config fs' = Some content'
            \<and> ParseSSHConfigFile (Some content') = (hs, None) \<and> Name h \<notin> set (map Name hs)
          \<longrightarrow> AddSSHHost h fs' =
                (None, fs'\<lparr>backup := Some content',
                           config := Some (content' @ addText (h\<lparr>ProxyJump := []\<rparr>)
                                           @ ''    ProxyJump '' @ ProxyJump h @ [CHR 0x0A])\<rparr>))"
proof -
  have ub: "updateBlock (g\<lparr>ProxyJump := []\<rparr>) = updateBlock g" for g
    by (simp add: updateBlock_def)
  have "updateLines name (h\<lparr>ProxyJump := []\<rparr>) ls = updateLines name h ls" for ls
    by (induction name h ls rule: updateLines.induct) (simp_all add: ub)
  then have loop: "updateLoop name (h\<lparr>ProxyJump := []\<rparr>) ls acc found = updateLoop name h ls acc found"
    for ls acc found
    by (simp add: updateLoop_eq)
  have indep: "UpdateSSHHost name h fs = UpdateSSHHost name (h\<lparr>ProxyJump := []\<rparr>) fs"
    unfolding UpdateSSHHost_def loop by (rule refl)
  have upd: "\<exists>new. UpdateSSHHost name h fs = (None, fs\<lparr>backup := Some content, config := Some new\<rparr>)
      \<and> Split new CHR 0x0A = pre @ updateBlock h @ post
      \<and> list_all (\<lambda>l. keyOf l \<noteq> Some ''proxyjump'') (updateBlock h)"
    if fs: "home fs" "config fs = Some content"
      and split: "Split content CHR 0x0A = pre @ span @ post"
      and loc: "noMatch name pre" "blockOf name pre span" "blockEnd post" "noMatch name post"
      and lf: "list_all (\<lambda>l. CHR 0x0A \<notin> set l) (updateBlock h)"
  proof -
    have found: "\<not> noMatch name (Split content CHR 0x0A)"
      unfolding split using loc(2) by (rule blockOf_found)
    have lines: "updateLines name h (Split content CHR 0x0A) = pre @ updateBlock h @ post"
      unfolding split using loc by (rule updateLines_frame)
    have u: "UpdateSSHHost name h fs =
        (None, fs\<lparr>backup := Some content,
                  config := Some (Join (pre @ updateBlock h @ post) [CHR 0x0A])\<rparr>)"
      using fs found lines by (simp add: UpdateSSHHost_eq)
    have "list_all (\<lambda>l. CHR 0x0A \<notin> set l) (pre @ post)"
      using Split_pieces [of _ content "CHR 0x0A"] by (auto simp: list_all_iff split)
    then have "list_all (\<lambda>l. CHR 0x0A \<notin> set l) (pre @ updateBlock h @ post)"
      using lf by simp
    moreover have "pre @ updateBlock h @ post \<noteq> []" by (simp add: updateBlock_def)
    ultimately have "Split (Join (pre @ updateBlock h @ post) [CHR 0x0A]) CHR 0x0A =
        pre @ updateBlock h @ post"
      by (intro Split_Join)
    with u keyOf_updateBlock [of h] show ?thesis by blast
  qed
  have add: "AddSSHHost h fs' =
      (None, fs'\<lparr>backup := Some content',
                 config := Some (content' @ addText (h\<lparr>ProxyJump := []\<rparr>)
                                 @ ''    ProxyJump '' @ ProxyJump h @ [CHR 0x0A])\<rparr>)"
    if "home fs'" "config fs' = Some content'"
      "ParseSSHConfigFile (Some content') = (hs, None)" "Name h \<notin> set (map Name hs)"
    using that assms
    by (simp add: AddSSHHost_def HostExists_def ParseSSHConfig_def backupConfig_def addText_def)
  from indep upd add show ?thesis by blast
qed

theorem update_omits_ProxyJump_witness:
  "ProxyJump \<lparr>Name = ''web2'', Hostname = ''10.0.0.1'', User = ''root'', Port = ''2222'',
      Identity = ''~/.ssh/id'', ProxyJump = ''bastion'', Tags = [''prod'']\<rparr> \<noteq> []
   \<and> ParseSSHConfigFile (Some ''Host web\<newline>    HostName old\<newline>    ProxyJump gate\<newline>'')
     = ([\<lparr>Name = ''web'', Hostname = ''old'', User = [], Port = ''22'', Identity = [],
          ProxyJump = ''gate'', Tags = []\<rparr>], None)
   \<and> UpdateSSHHost ''web''
        \<lparr>Name = ''web2'', Hostname = ''10.0.0.1'', User = ''root'', Port = ''2222'',
         Identity = ''~/.ssh/id'', ProxyJump = ''bastion'', Tags = [''prod'']\<rparr>
        \<lparr>home = True, config = Some ''Host web\<newline>    HostName old\<newline>    ProxyJump gate\<newline>'',
         backup = None\<rparr>
     = (None,
        \<lparr>home = True,
         config = Some ''\<newline># Tags: prod\<newline>Host web2\<newline>    HostName 10.0.0.1\<newline>    User root\<newline>    Port 2222\<newline>    IdentityFile ~/.ssh/id\<newline>'',
         backup = Some ''Host web\<newline>    HostName old\<newline>    ProxyJump gate\<newline>''\<rparr>)
   \<and> AddSSHHost
        \<lparr>Name = ''web2'', Hostname = ''10.0.0.1'', User = ''root'', Port = ''2222'',
         Identity = ''~/.ssh/id'', ProxyJump = ''bastion'', Tags = [''prod'']\<rparr>
        \<lparr>home = True, config = Some ''Host web\<newline>    HostName old\<newline>    ProxyJump gate\<newline>'',
         backup = None\<rparr>
     = (None,
        \<lparr>home = True,
         config = Some ''Host web\<newline>    HostName old\<newline>    ProxyJump gate\<newline>\<newline># Tags: prod\<newline>Host web2\<newline>    HostName 10.0.0.1\<newline>    User root\<newline>    Port 2222\<newline>    IdentityFile ~/.ssh/id\<newline>    ProxyJump bastion\<newline>'',
         backup = Some ''Host web\<newline>    HostName old\<newline>    ProxyJump gate\<newline>''\<rparr>)"
proof -
  define content where "content = ''Host web\<newline>    HostName old\<newline>    ProxyJump gate\<newline>''"
  define fs where "fs = \<lparr>home = True, config = Some content, backup = None\<rparr>"
  define h where "h = \<lparr>Name = ''web2'', Hostname = ''10.0.0.1'', User = ''root'', Port = ''2222'',
      Identity = ''~/.ssh/id'', ProxyJump = ''bastion'', Tags = [''prod'']\<rparr>"
  define pre where "pre = ([] :: string list)"
  define span where "span = [''Host web'', ''    HostName old'', ''    ProxyJump gate'']"
  define post where "post = [[] :: string]"
  define hs where "hs = [\<lparr>Name = ''web'', Hostname = ''old'', User = [], Port = ''22'',
      Identity = [], ProxyJump = ''gate'', Tags = []\<rparr>]"
  have 0: "ProxyJump h \<noteq> []" by (simp add: h_def)
  have 1: "home fs" and 2: "config fs = Some content" by (simp_all add: fs_def)
  have 3: "Split content CHR 0x0A = pre @ span @ post"
    by (simp add: content_def pre_def span_def post_def)
  have 4: "noMatch ''web'' pre" by (simp add: pre_def)
  have 5: "blockOf ''web'' pre span"
    by (simp add: blockOf_def pre_def span_def locator_eval string_eval)
  have 6: "blockEnd post" by (simp add: blockEnd_def post_def locator_eval string_eval)
  have 7: "noMatch ''web'' post" by (simp add: post_def locator_eval string_eval)
  have 8: "list_all (\<lambda>l. CHR 0x0A \<notin> set l) (updateBlock h)"
    by (simp add: h_def updateBlock_def)
  have 9: "ParseSSHConfigFile (Some content) = (hs, None)"
    by (simp add: content_def hs_def parser_eval string_eval)
  have 10: "Name h \<notin> set (map Name hs)" by (simp add: h_def hs_def)
  from update_omits_ProxyJump [OF 0, of "''web''" fs content pre span post fs content hs]
    1 2 3 4 5 6 7 8 9 10
  obtain new where u: "UpdateSSHHost ''web'' h fs =
        (None, fs\<lparr>backup := Some content, config := Some new\<rparr>)"
      and n: "Split new CHR 0x0A = pre @ updateBlock h @ post"
      and a: "AddSSHHost h fs =
        (None, fs\<lparr>backup := Some content,
                  config := Some (content @ addText (h\<lparr>ProxyJump := []\<rparr>)
                                  @ ''    ProxyJump '' @ ProxyJump h @ [CHR 0x0A])\<rparr>)"
    by blast
  have "UpdateSSHHost ''web'' h fs =
        (None, fs\<lparr>backup := Some content,
                  config := Some (Join (updateLines ''web'' h (Split content CHR 0x0A)) [CHR 0x0A])\<rparr>)"
    using blockOf_found [OF 5, of post] by (simp add: UpdateSSHHost_eq [OF 1 2] 3 [symmetric])
  with u have "new = Join (updateLines ''web'' h (Split content CHR 0x0A)) [CHR 0x0A]"
    by (simp add: fs_def)
  then have "new = ''\<newline># Tags: prod\<newline>Host web2\<newline>    HostName 10.0.0.1\<newline>    User root\<newline>    Port 2222\<newline>    IdentityFile ~/.ssh/id\<newline>''"
    by (simp add: content_def h_def updateBlock_def locator_eval string_eval)
  with u a 0 9 show ?thesis
    unfolding fs_def content_def h_def hs_def by (simp add: addText_def)
qed

theorem update_line_feed_counterexample:
  "UpdateSSHHost ''web''
      \<lparr>Name = ''web'', Hostname = ''h\<newline>    ProxyJump evil'', User = [], Port = [], Identity = [],
       ProxyJump = ''bastion'', Tags = []\<rparr>
      \<lparr>home = True, config = Some ''Host web\<newline>    HostName old\<newline>'', backup = None\<rparr>
     = (None,
        \<lparr>home = True, config = Some ''\<newline>Host web\<newline>    HostName h\<newline>    ProxyJump evil\<newline>'',
         backup = Some ''Host web\<newline>    HostName old\<newline>''\<rparr>)
   \<and> Split ''\<newline>Host web\<newline>    HostName h\<newline>    ProxyJump evil\<newline>'' CHR 0x0A
     = ['''', ''Host web'', ''    HostName h'', ''    ProxyJump evil'', '''']
   \<and> keyOf ''    ProxyJump evil'' = Some ''proxyjump''
   \<and> ParseSSHConfigFile (Some ''\<newline>Host web\<newline>    HostName h\<newline>    ProxyJump evil\<newline>'')
     = ([\<lparr>Name = ''web'', Hostname = ''h'', User = [], Port = ''22'', Identity = [],
          ProxyJump = ''evil'', Tags = []\<rparr>], None)"
proof -
  have "updateLines ''web''
      \<lparr>Name = ''web'', Hostname = ''h\<newline>    ProxyJump evil'', User = [], Port = [], Identity = [],
       ProxyJump = ''bastion'', Tags = []\<rparr>
      [''Host web'', ''    HostName old'', []]
     = [[], ''Host web'', ''    HostName h\<newline>    ProxyJump evil'', []]"
    by (simp add: locator_eval updateBlock_def string_eval)
  moreover have "\<not> noMatch ''web'' [''Host web'', ''    HostName old'', []]"
    by (simp add: locator_eval string_eval)
  ultimately show ?thesis
    by (simp add: UpdateSSHHost_eq keyOf_def parser_eval string_eval)
qed

text \<open>
  C6, as amended. The lines of the file are \<open>pre\<close>, the block of the name and \<open>post\<close>; no
  other line matches the name. Then delete writes \<open>pre\<close> and \<open>post\<close> without its first line
  when that line is blank: the block and one blank line after it are removed, every other
  line is kept as it is. When moreover the lines are shorter than the scanner's buffer, no
  tags are pending after \<open>pre\<close>, the block parses to one host and leaves no tags pending,
  and \<open>post\<close> sets no field before its first Host line, the file parsed to the hosts of
  \<open>pre\<close>, that host and the hosts of \<open>post\<close>, and the new file parses to the hosts of
  \<open>pre\<close> and the hosts of \<open>post\<close>.
\<close>

theorem delete_block:
  assumes "home fs" and "config fs = Some content"
    and "Split content CHR 0x0A = pre @ span @ post"
    and "noMatch name pre" and "blockOf name pre span" and "blockEnd post" and "noMatch name post"
  shows "DeleteSSHHost name fs =
           (None, fs\<lparr>backup := Some content,
                     config := Some (Join (pre @ skipBlank post) [CHR 0x0A])\<rparr>)
       \<and> (list_all (\<lambda>l. length l < MaxScanTokenSize) (pre @ span @ post)
            \<and> pendingTags (parseLines initState pre) = []
            \<and> finish (parseLines initState span) = [X]
            \<and> pendingTags (parseLines initState span) = []
            \<and> closesHost post
          \<longrightarrow> ParseSSHConfigFile (Some content) =
                (finish (parseLines initState pre) @ [X] @ finish (parseLines initState post), None)
              \<and> ParseSSHConfigFile (Some (Join (pre @ skipBlank post) [CHR 0x0A])) =
                (finish (parseLines initState pre) @ finish (parseLines initState post), None))"
proof -
  have found: "\<not> noMatch name (Split content CHR 0x0A)"
    unfolding assms(3) using assms(5) by (rule blockOf_found)
  have lines: "deleteLines name (Split content CHR 0x0A) = pre @ skipBlank post"
    unfolding assms(3) using assms(4-7) by (rule deleteLines_frame)
  have del: "DeleteSSHHost name fs =
           (None, fs\<lparr>backup := Some content,
                     config := Some (Join (pre @ skipBlank post) [CHR 0x0A])\<rparr>)"
    using assms(1,2) found lines by (simp add: DeleteSSHHost_eq)
  have parse: "ParseSSHConfigFile (Some content) =
        (finish (parseLines initState pre) @ [X] @ finish (parseLines initState post), None)
      \<and> ParseSSHConfigFile (Some (Join (pre @ skipBlank post) [CHR 0x0A])) =
        (finish (parseLines initState pre) @ finish (parseLines initState post), None)"
    if short: "list_all (\<lambda>l. length l < MaxScanTokenSize) (pre @ span @ post)"
      and pend: "pendingTags (parseLines initState pre) = []"
      and one: "finish (parseLines initState span) = [X]"
      and none: "pendingTags (parseLines initState span) = []"
      and closes: "closesHost post"
  proof -
    define s1 where "s1 = parseLines initState pre"
    define e where "e = \<lparr>hosts = [], currentHost = None, pendingTags = pendingTags s1\<rparr>"
    have e: "e = initState" using pend by (simp add: e_def s1_def initState_def)
    \<comment> \<open>the file before\<close>
    define s2 where "s2 = parseLines s1 span"
    have "finish s2 = finish s1 @ finish (parseLines e span)"
      unfolding s2_def e_def using blockOf_closesHost [OF assms(5), of "[]"]
      by (intro finish_closesHost) simp
    then have f2: "finish s2 = finish s1 @ [X]" using one e by simp
    have "pendingTags initState = []" by (simp add: initState_def)
    then have "pendingTags s2 = pendingTags (parseLines initState span)"
      unfolding s2_def by (intro pendingTags_parseLines) (simp add: s1_def pend)
    then have p2: "pendingTags s2 = []" using none by simp
    have e2: "\<lparr>hosts = [], currentHost = None, pendingTags = pendingTags s2\<rparr> = initState"
      using p2 by (simp add: initState_def)
    have "finish (parseLines s2 post) = finish s2 @ finish (parseLines initState post)"
      using finish_closesHost [OF closes, of s2] unfolding e2 .
    moreover have "parseLines initState (pre @ span @ post) = parseLines s2 post"
      by (simp add: parseLines_append s1_def s2_def)
    ultimately have "finish (parseLines initState (pre @ span @ post)) =
        finish s1 @ [X] @ finish (parseLines initState post)"
      using f2 by simp
    moreover have "ParseSSHConfigFile (Some content) =
        (finish (parseLines initState (Split content CHR 0x0A)), None)"
      using short by (intro ParseSSHConfigFile_lines) (simp add: assms(3))
    ultimately have before: "ParseSSHConfigFile (Some content) =
        (finish s1 @ [X] @ finish (parseLines initState post), None)"
      by (simp add: assms(3))
    \<comment> \<open>the file after\<close>
    have "list_all (\<lambda>l. length l < MaxScanTokenSize) (pre @ skipBlank post)"
      using short set_skipBlank [of post] by (auto simp: list_all_iff)
    moreover have "set (pre @ skipBlank post) \<subseteq> set (Split content CHR 0x0A)"
      using set_skipBlank [of post] by (auto simp: assms(3))
    ultimately have sc: "list_all scannable (pre @ skipBlank post)"
      by (rule scannable_pieces) simp
    have "finish (parseLines s1 (skipBlank post)) = finish s1 @ finish (parseLines e (skipBlank post))"
      unfolding e_def using closes by (intro finish_closesHost closesHost_skipBlank)
    moreover have "parseLines initState (pre @ skipBlank post) = parseLines s1 (skipBlank post)"
      by (simp add: parseLines_append s1_def)
    ultimately have "finish (parseLines initState (pre @ skipBlank post)) =
        finish s1 @ finish (parseLines initState post)"
      by (simp add: parseLines_skipBlank e)
    then have "ParseSSHConfigFile (Some (Join (pre @ skipBlank post) [CHR 0x0A])) =
        (finish s1 @ finish (parseLines initState post), None)"
      using ParseSSHConfigFile_Join [OF sc] by simp
    with before show ?thesis by (simp add: s1_def)
  qed
  from del parse show ?thesis by blast
qed

theorem delete_block_witness:
  "DeleteSSHHost ''b''
      \<lparr>home = True,
       config = Some ''Host a\<newline>    HostName 1.1.1.1\<newline>\<newline># Tags: t\<newline>Host b\<newline>    HostName 2.2.2.2\<newline>    User u\<newline>\<newline>Host c\<newline>    HostName 3.3.3.3\<newline>'',
       backup = None\<rparr>
     = (None,
        \<lparr>home = True,
         config = Some ''Host a\<newline>    HostName 1.1.1.1\<newline>\<newline>Host c\<newline>    HostName 3.3.3.3\<newline>'',
         backup = Some ''Host a\<newline>    HostName 1.1.1.1\<newline>\<newline># Tags: t\<newline>Host b\<newline>    HostName 2.2.2.2\<newline>    User u\<newline>\<newline>Host c\<newline>    HostName 3.3.3.3\<newline>''\<rparr>)
   \<and> ParseSSHConfigFile (Some ''Host a\<newline>    HostName 1.1.1.1\<newline>\<newline># Tags: t\<newline>Host b\<newline>    HostName 2.2.2.2\<newline>    User u\<newline>\<newline>Host c\<newline>    HostName 3.3.3.3\<newline>'')
     = ([\<lparr>Name = ''a'', Hostname = ''1.1.1.1'', User = [], Port = ''22'', Identity = [],
          ProxyJump = [], Tags = []\<rparr>,
         \<lparr>Name = ''b'', Hostname = ''2.2.2.2'', User = ''u'', Port = ''22'', Identity = [],
          ProxyJump = [], Tags = [''t'']\<rparr>,
         \<lparr>Name = ''c'', Hostname = ''3.3.3.3'', User = [], Port = ''22'', Identity = [],
          ProxyJump = [], Tags = []\<rparr>], None)
   \<and> ParseSSHConfigFile (Some ''Host a\<newline>    HostName 1.1.1.1\<newline>\<newline>Host c\<newline>    HostName 3.3.3.3\<newline>'')
     = ([\<lparr>Name = ''a'', Hostname = ''1.1.1.1'', User = [], Port = ''22'', Identity = [],
          ProxyJump = [], Tags = []\<rparr>,
         \<lparr>Name = ''c'', Hostname = ''3.3.3.3'', User = [], Port = ''22'', Identity = [],
          ProxyJump = [], Tags = []\<rparr>], None)"
proof -
  define content where "content = ''Host a\<newline>    HostName 1.1.1.1\<newline>\<newline># Tags: t\<newline>Host b\<newline>    HostName 2.2.2.2\<newline>    User u\<newline>\<newline>Host c\<newline>    HostName 3.3.3.3\<newline>''"
  define fs where "fs = \<lparr>home = True, config = Some content, backup = None\<rparr>"
  define pre where "pre = [''Host a'', ''    HostName 1.1.1.1'', []]"
  define span where "span = [''# Tags: t'', ''Host b'', ''    HostName 2.2.2.2'', ''    User u'']"
  define post where "post = [[], ''Host c'', ''    HostName 3.3.3.3'', []]"
  define X where "X = \<lparr>Name = ''b'', Hostname = ''2.2.2.2'', User = ''u'', Port = ''22'',
    Identity = [], ProxyJump = [], Tags = [''t'']\<rparr>"
  have 1: "home fs" and 2: "config fs = Some content" by (simp_all add: fs_def)
  have 3: "Split content CHR 0x0A = pre @ span @ post"
    by (simp add: content_def pre_def span_def post_def)
  have 4: "noMatch ''b'' pre" by (simp add: pre_def locator_eval string_eval)
  have 5: "blockOf ''b'' pre span"
    by (simp add: blockOf_def pre_def span_def locator_eval string_eval)
  have 6: "blockEnd post" by (simp add: blockEnd_def post_def locator_eval string_eval)
  have 7: "noMatch ''b'' post" by (simp add: post_def locator_eval string_eval)
  have 8: "list_all (\<lambda>l. length l < MaxScanTokenSize) (pre @ span @ post)"
    by (simp add: pre_def span_def post_def MaxScanTokenSize_def)
  have pre: "parseLines initState pre =
      \<lparr>hosts = [], currentHost = Some \<lparr>Name = ''a'', Hostname = ''1.1.1.1'', User = [],
         Port = ''22'', Identity = [], ProxyJump = [], Tags = []\<rparr>, pendingTags = []\<rparr>"
    by (simp add: pre_def parser_eval string_eval)
  have span: "parseLines initState span = \<lparr>hosts = [], currentHost = Some X, pendingTags = []\<rparr>"
    by (simp add: span_def X_def parser_eval string_eval)
  have post: "parseLines initState post =
      \<lparr>hosts = [], currentHost = Some \<lparr>Name = ''c'', Hostname = ''3.3.3.3'', User = [],
         Port = ''22'', Identity = [], ProxyJump = [], Tags = []\<rparr>, pendingTags = []\<rparr>"
    by (simp add: post_def parser_eval string_eval)
  have 9: "pendingTags (parseLines initState pre) = []" by (simp add: pre)
  have 10: "finish (parseLines initState span) = [X]" by (simp add: span finish_def)
  have 11: "pendingTags (parseLines initState span) = []" by (simp add: span)
  have 12: "closesHost post" by (simp add: post_def keyOf_def string_eval)
  have new: "Join (pre @ skipBlank post) [CHR 0x0A] =
      ''Host a\<newline>    HostName 1.1.1.1\<newline>\<newline>Host c\<newline>    HostName 3.3.3.3\<newline>''"
    by (simp add: pre_def post_def skipBlank_def string_eval)
  from delete_block [OF 1 2 3 4 5 6 7, of X] 8 9 10 11 12
  have "DeleteSSHHost ''b'' fs =
           (None, fs\<lparr>backup := Some content,
                     config := Some (Join (pre @ skipBlank post) [CHR 0x0A])\<rparr>)"
    and "ParseSSHConfigFile (Some content) =
           (finish (parseLines initState pre) @ [X] @ finish (parseLines initState post), None)"
    and "ParseSSHConfigFile (Some (Join (pre @ skipBlank post) [CHR 0x0A])) =
           (finish (parseLines initState pre) @ finish (parseLines initState post), None)"
    by simp_all
  then show ?thesis
    unfolding new pre post by (simp add: fs_def content_def X_def finish_def)
qed

theorem delete_stray_line_counterexample:
  "ParseSSHConfigFile (Some ''Host a\<newline>    HostName 1.1.1.1\<newline>\<newline>Host x\<newline>    HostName 2.2.2.2\<newline>\<newline>    User u\<newline>'')
     = ([\<lparr>Name = ''a'', Hostname = ''1.1.1.1'', User = [], Port = ''22'', Identity = [],
          ProxyJump = [], Tags = []\<rparr>,
         \<lparr>Name = ''x'', Hostname = ''2.2.2.2'', User = ''u'', Port = ''22'', Identity = [],
          ProxyJump = [], Tags = []\<rparr>], None)
   \<and> DeleteSSHHost ''x''
      \<lparr>home = True,
       config = Some ''Host a\<newline>    HostName 1.1.1.1\<newline>\<newline>Host x\<newline>    HostName 2.2.2.2\<newline>\<newline>    User u\<newline>'',
       backup = None\<rparr>
     = (None,
        \<lparr>home = True,
         config = Some ''Host a\<newline>    HostName 1.1.1.1\<newline>\<newline>    User u\<newline>'',
         backup = Some ''Host a\<newline>    HostName 1.1.1.1\<newline>\<newline>Host x\<newline>    HostName 2.2.2.2\<newline>\<newline>    User u\<newline>''\<rparr>)
   \<and> ParseSSHConfigFile (Some ''Host a\<newline>    HostName 1.1.1.1\<newline>\<newline>    User u\<newline>'')
     = ([\<lparr>Name = ''a'', Hostname = ''1.1.1.1'', User = ''u'', Port = ''22'', Identity = [],
          ProxyJump = [], Tags = []\<rparr>], None)"
proof -
  have "deleteLines ''x''
      [''Host a'', ''    HostName 1.1.1.1'', [], ''Host x'', ''    HostName 2.2.2.2'', [],
       ''    User u'', []]
     = [''Host a'', ''    HostName 1.1.1.1'', [], ''    User u'', []]"
    by (simp add: locator_eval string_eval)
  moreover have "\<not> noMatch ''x''
      [''Host a'', ''    HostName 1.1.1.1'', [], ''Host x'', ''    HostName 2.2.2.2'', [],
       ''    User u'', []]"
    by (simp add: locator_eval string_eval)
  ultimately show ?thesis
    by (simp add: DeleteSSHHost_eq parser_eval string_eval)
qed

text \<open>
  C7. The tags-annotated branch compares the whole trimmed line after the tags line with
  \<^verbatim>\<open>Host\<close>, a space and the name. With two spaces before the name the second field is
  the name, the bare branch matches the line, and the tags-annotated branch does not:
  delete leaves the tags line in the file.
\<close>

theorem tags_branch_compares_whole_line:
  "hostBranch ''web'' ''Host  web''
   \<and> \<not> tagsBranch ''web'' [''# Tags: prod'', ''Host  web'', ''    HostName 10.0.0.1'', [], []]
   \<and> DeleteSSHHost ''web''
        \<lparr>home = True, config = Some ''# Tags: prod\<newline>Host  web\<newline>    HostName 10.0.0.1\<newline>\<newline>'',
         backup = None\<rparr>
     = (None,
        \<lparr>home = True, config = Some ''# Tags: prod\<newline>'',
         backup = Some ''# Tags: prod\<newline>Host  web\<newline>    HostName 10.0.0.1\<newline>\<newline>''\<rparr>)"
  by (simp add: DeleteSSHHost_eq locator_eval string_eval)

text \<open>
  C8. When no block matches the name, update and delete fail with \<open>NotFound\<close> and the
  config file keeps its content (the backup file has been written).
\<close>

theorem not_found_leaves_config:
  assumes "home fs" and "config fs = Some content"
    and "noMatch name (Split content CHR 0x0A)"
  shows "UpdateSSHHost name h fs = (Some (NotFound name), fs\<lparr>backup := Some content\<rparr>)
       \<and> DeleteSSHHost name fs = (Some (NotFound name), fs\<lparr>backup := Some content\<rparr>)
       \<and> config (snd (UpdateSSHHost name h fs)) = Some content
       \<and> config (snd (DeleteSSHHost name fs)) = Some content"
  using assms by (simp add: UpdateSSHHost_eq DeleteSSHHost_eq)

theorem not_found_leaves_config_witness:
  "home \<lparr>home = True, config = Some (''Host a'' @ [CHR 0x0A] @ ''    HostName h'' @ [CHR 0x0A]), backup = None\<rparr>
   \<and> noMatch ''b'' (Split (''Host a'' @ [CHR 0x0A] @ ''    HostName h'' @ [CHR 0x0A]) CHR 0x0A)
   \<and> UpdateSSHHost ''b'' \<lparr>Name = ''c'', Hostname = ''h2'', User = [], Port = [], Identity = [],
        ProxyJump = [], Tags = []\<rparr>
        \<lparr>home = True, config = Some (''Host a'' @ [CHR 0x0A] @ ''    HostName h'' @ [CHR 0x0A]), backup = None\<rparr>
     = (Some (NotFound ''b''),
        \<lparr>home = True, config = Some (''Host a'' @ [CHR 0x0A] @ ''    HostName h'' @ [CHR 0x0A]),
         backup = Some (''Host a'' @ [CHR 0x0A] @ ''    HostName h'' @ [CHR 0x0A])\<rparr>)
   \<and> DeleteSSHHost ''b''
        \<lparr>home = True, config = Some (''Host a'' @ [CHR 0x0A] @ ''    HostName h'' @ [CHR 0x0A]), backup = None\<rparr>
     = (Some (NotFound ''b''),
        \<lparr>home = True, config = Some (''Host a'' @ [CHR 0x0A] @ ''    HostName h'' @ [CHR 0x0A]),
         backup = Some (''Host a'' @ [CHR 0x0A] @ ''    HostName h'' @ [CHR 0x0A])\<rparr>)"
proof -
  have nm: "noMatch ''b'' (Split (''Host a'' @ [CHR 0x0A] @ ''    HostName h'' @ [CHR 0x0A]) CHR 0x0A)"
    by (simp add: locator_eval string_eval)
  show ?thesis
    using nm not_found_leaves_config [of
      "\<lparr>home = True, config = Some (''Host a'' @ [CHR 0x0A] @ ''    HostName h'' @ [CHR 0x0A]), backup = None\<rparr>"
      "''Host a'' @ [CHR 0x0A] @ ''    HostName h'' @ [CHR 0x0A]" "''b''"
      "\<lparr>Name = ''c'', Hostname = ''h2'', User = [], Port = [], Identity = [],
        ProxyJump = [], Tags = []\<rparr>"]
    by simp
qed

text \<open>
  C9. A trimmed line that starts with \<^verbatim>\<open>Host\<close> and a space has at least two fields, so
  the index 1 is in range, and both loops return their lines: neither ends in the panic.
\<close>

theorem host_line_index_in_range:
  "(HasPrefix (TrimSpace l) ''Host '' \<longrightarrow> 2 \<le> length (Fields (TrimSpace l)))
   \<and> (\<exists>r. updateLoop name h ls acc found = Inr r)
   \<and> (\<exists>r. deleteLoop name ls acc found = Inr r)"
  by (simp add: Host_line_two_fields updateLoop_eq deleteLoop_eq)

theorem host_line_index_in_range_witness:
  "HasPrefix (TrimSpace ''   Host web   '') ''Host ''
   \<and> Fields (TrimSpace ''   Host web   '') = [''Host'', ''web'']
   \<and> 2 \<le> length (Fields (TrimSpace ''   Host web   ''))"
  using host_line_index_in_range [of "''   Host web   ''"]
  by (simp add: string_eval)

text \<open>
  C10. Without a config file, create fails with the error of opening it (or of the home
  directory) and leaves the files as they are: no config file comes to exist.
\<close>

theorem add_without_config_file:
  assumes "config fs = None"
  shows "AddSSHHost host fs = (Some (if home fs then ErrNotExist else ErrNoHome), fs)"
  using assms
  by (simp add: AddSSHHost_def HostExists_def ParseSSHConfig_def ParseSSHConfigFile_def)

theorem add_without_config_file_witness:
  "config \<lparr>home = True, config = None, backup = None\<rparr> = None
   \<and> AddSSHHost \<lparr>Name = ''web'', Hostname = ''10.0.0.1'', User = [], Port = [], Identity = [],
        ProxyJump = [], Tags = []\<rparr> \<lparr>home = True, config = None, backup = None\<rparr>
     = (Some ErrNotExist, \<lparr>home = True, config = None, backup = None\<rparr>)"
  using add_without_config_file [of "\<lparr>home = True, config = None, backup = None\<rparr>"
      "\<lparr>Name = ''web'', Hostname = ''10.0.0.1'', User = [], Port = [], Identity = [],
        ProxyJump = [], Tags = []\<rparr>"]
  by simp

end
